theory Spec2Isabelle
  imports Main "HOL-Library.Word"
begin

section \<open>The entity manager of gameutils (include/gameutils/entity.h)\<close>

text \<open>
  A shallow embedding of \<^verbatim>\<open>gameutils::EntityManager\<close>. Every member function becomes a
  function from the manager's state to its result and the state it leaves behind;
  a \<^verbatim>\<open>throw std::runtime_error\<close> is a result of its own, paired with the state as
  it is at the moment of the throw.
\<close>

subsection \<open>Data model\<close>

text \<open>\<^verbatim>\<open>typedef uint32_t EntityId\<close>, \<^verbatim>\<open>InvalidEntity = 0\<close> and
  \<^verbatim>\<open>std::numeric_limits<EntityId>::max()\<close>.\<close>

type_synonym EntityId = "32 word"

definition InvalidEntity :: EntityId where
  "InvalidEntity = 0"

definition maxEntityId :: EntityId where
  "maxEntityId = 0xFFFFFFFF"

text \<open>\<^verbatim>\<open>std::type_index\<close>: an opaque key with equality, one per class.\<close>

type_synonym type_index = nat

text \<open>
  An object of a subclass of \<^verbatim>\<open>Component\<close>: its identity (the address) and its
  dynamic class, which is what \<^verbatim>\<open>typeid(*pInner)\<close> reads. A
  \<^verbatim>\<open>std::shared_ptr<Component>\<close> is such an object or \<^verbatim>\<open>nullptr\<close> (\<open>None\<close>).
\<close>

datatype Component = Component (address: nat) (typeid: type_index)

type_synonym component_ptr = "Component option"

text \<open>
  \<^verbatim>\<open>ComponentNodes\<close> is an \<^verbatim>\<open>unordered_map<type_index, shared_ptr<Component>>\<close>.
  It is the one container the code iterates over (in \<^verbatim>\<open>destroyEntity\<close>), so it is an
  association list whose order stands for the iteration order; \<open>find\<close> is
  \<^const>\<open>map_of\<close>. The standard leaves that order open; the list keeps the order of
  insertion, one of the orders allowed. Only the state that a throwing
  \<^verbatim>\<open>destroyEntity\<close> leaves depends on it, and no property below does. The other containers are only searched, inserted into and erased
  from, and are maps. The \<^verbatim>\<open>shared_ptr<EntityNodes>\<close> stored in
  \<^verbatim>\<open>m_componentTypes\<close> always comes from a fresh \<^verbatim>\<open>make_shared\<close> and is never copied
  into a second entry, so the pointee is stored in place.
\<close>

type_synonym ComponentNodes = "(type_index \<times> component_ptr) list"

type_synonym EntityNodes = "EntityId \<rightharpoonup> component_ptr"

type_synonym Entities = "EntityId \<rightharpoonup> ComponentNodes"

type_synonym ComponentTypes = "type_index \<rightharpoonup> EntityNodes"

record EntityManager =
  m_entities :: Entities
  m_entitiesMarkedForRemoval :: "EntityId list"
  m_componentTypes :: ComponentTypes
  m_nextEntityId :: EntityId

text \<open>The constructor: empty containers, the cursor at the maximum.\<close>

definition EntityManager_new :: EntityManager where
  "EntityManager_new =
     \<lparr>m_entities = Map.empty, m_entitiesMarkedForRemoval = [],
      m_componentTypes = Map.empty, m_nextEntityId = maxEntityId\<rparr>"

text \<open>The five \<^verbatim>\<open>throw std::runtime_error(...)\<close> sites, in source order.\<close>

datatype runtime_error =
    Could_not_find_expected_component_type
  | Could_not_find_expected_entity_node
  | Could_not_find_or_create_entity_nodes
  | Missing_component
  | Missing_entity_node

subsection \<open>Container primitives\<close>

text \<open>\<^verbatim>\<open>insert\<close> of the standard maps: it never overwrites, and its \<^verbatim>\<open>.second\<close> tells
  whether the pair went in.\<close>

definition map_insert :: "('k \<rightharpoonup> 'v) \<Rightarrow> 'k \<Rightarrow> 'v \<Rightarrow> ('k \<rightharpoonup> 'v) \<times> bool" where
  "map_insert m k v = (if m k = None then (m(k \<mapsto> v), True) else (m, False))"

definition nodes_insert :: "ComponentNodes \<Rightarrow> type_index \<Rightarrow> component_ptr \<Rightarrow> ComponentNodes \<times> bool" where
  "nodes_insert nodes k v =
     (if map_of nodes k = None then (nodes @ [(k, v)], True) else (nodes, False))"

definition nodes_erase :: "ComponentNodes \<Rightarrow> type_index \<Rightarrow> ComponentNodes" where
  "nodes_erase nodes k = filter (\<lambda>node. fst node \<noteq> k) nodes"

subsection \<open>createEntity\<close>

text \<open>The step of the scan: \<^verbatim>\<open>if (entityId == 1) entityId = maxEntityId; else entityId--;\<close>.
  The same expression computes the next cursor.\<close>

definition prevEntityId :: "EntityId \<Rightarrow> EntityId" where
  "prevEntityId entityId = (if entityId = 1 then maxEntityId else entityId - 1)"

text \<open>The \<^verbatim>\<open>while\<close> loop that looks for a free id. It has no bound of its own, so it is
  a partial function: \<open>None\<close> is a loop that never ends.\<close>

partial_function (option) findAvailable :: "Entities \<Rightarrow> EntityId \<Rightarrow> EntityId option" where
  "findAvailable entities entityId =
     (if entities entityId \<noteq> None then findAvailable entities (prevEntityId entityId)
      else Some entityId)"

definition createEntity :: "EntityManager \<Rightarrow> (EntityId \<times> EntityManager) option" where
  "createEntity s =
     (if card (dom (m_entities s)) = unat maxEntityId then Some (InvalidEntity, s)
      else
        (case findAvailable (m_entities s) (m_nextEntityId s) of
           None \<Rightarrow> None
         | Some entityId \<Rightarrow>
             (case map_insert (m_entities s) entityId [] of
                (entities', inserted) \<Rightarrow>
                  if \<not> inserted then Some (InvalidEntity, s)
                  else Some (entityId,
                         s\<lparr>m_entities := entities',
                           m_nextEntityId := prevEntityId entityId\<rparr>))))"

subsection \<open>destroyEntity and destroyAllEntities\<close>

text \<open>The body of \<^verbatim>\<open>for (auto cmNode: componentNodes)\<close>, over the nodes still to visit.\<close>

fun destroyEntity_loop ::
  "EntityId \<Rightarrow> ComponentNodes \<Rightarrow> EntityManager \<Rightarrow> (runtime_error + unit) \<times> EntityManager" where
  "destroyEntity_loop entityId [] s = (Inr (), s)"
| "destroyEntity_loop entityId (cmNode # rest) s =
     (case m_componentTypes s (fst cmNode) of
        None \<Rightarrow> (Inl Could_not_find_expected_component_type, s)
      | Some enNodes \<Rightarrow>
          (case enNodes entityId of
             None \<Rightarrow> (Inl Could_not_find_expected_entity_node, s)
           | Some _ \<Rightarrow>
               destroyEntity_loop entityId rest
                 (s\<lparr>m_componentTypes :=
                      (m_componentTypes s)(fst cmNode \<mapsto> enNodes(entityId := None))\<rparr>)))"

definition destroyEntity ::
  "EntityId \<Rightarrow> EntityManager \<Rightarrow> (runtime_error + bool) \<times> EntityManager" where
  "destroyEntity entityId s =
     (case m_entities s entityId of
        None \<Rightarrow> (Inr False, s)
      | Some componentNodes \<Rightarrow>
          (case destroyEntity_loop entityId componentNodes s of
             (Inl e, s') \<Rightarrow> (Inl e, s')
           | (Inr _, s') \<Rightarrow>
               (Inr True, s'\<lparr>m_entities := (m_entities s')(entityId := None)\<rparr>)))"

definition destroyAllEntities :: "EntityManager \<Rightarrow> bool \<times> EntityManager" where
  "destroyAllEntities s =
     (True, s\<lparr>m_entities := Map.empty, m_componentTypes := Map.empty\<rparr>)"

subsection \<open>attachComponent and detachComponent\<close>

definition attachComponent ::
  "EntityId \<Rightarrow> component_ptr \<Rightarrow> EntityManager \<Rightarrow> (runtime_error + bool) \<times> EntityManager" where
  "attachComponent entityId pComponent s =
     (case m_entities s entityId of
        None \<Rightarrow> (Inr False, s)
      | Some cmNodes \<Rightarrow>
          (case pComponent of
             None \<Rightarrow> (Inr False, s)
           | Some pInner \<Rightarrow>
               (let cmType = typeid pInner in
                case map_of cmNodes cmType of
                  Some _ \<Rightarrow> (Inr False, s)
                | None \<Rightarrow>
                    (case nodes_insert cmNodes cmType pComponent of
                       (cmNodes', inserted) \<Rightarrow>
                         if \<not> inserted then (Inr False, s)
                         else
                           let s1 = s\<lparr>m_entities := (m_entities s)(entityId \<mapsto> cmNodes')\<rparr>;
                               s2 = (case m_componentTypes s1 cmType of
                                       None \<Rightarrow>
                                         s1\<lparr>m_componentTypes :=
                                              fst (map_insert (m_componentTypes s1) cmType Map.empty)\<rparr>
                                     | Some _ \<Rightarrow> s1)
                           in (case m_componentTypes s2 cmType of
                                 None \<Rightarrow> (Inl Could_not_find_or_create_entity_nodes, s2)
                               | Some entityNodes \<Rightarrow>
                                   (Inr True,
                                    s2\<lparr>m_componentTypes :=
                                         (m_componentTypes s2)
                                           (cmType \<mapsto> fst (map_insert entityNodes entityId pComponent))\<rparr>))))))"

text \<open>\<^verbatim>\<open>detachComponent<T>\<close>: the template argument is the first parameter.\<close>

definition detachComponent ::
  "type_index \<Rightarrow> EntityId \<Rightarrow> EntityManager \<Rightarrow> (runtime_error + bool) \<times> EntityManager" where
  "detachComponent cmType entityId s =
     (case m_entities s entityId of
        None \<Rightarrow> (Inr False, s)
      | Some cmNodes \<Rightarrow>
          (case map_of cmNodes cmType of
             None \<Rightarrow> (Inr False, s)
           | Some _ \<Rightarrow>
               (let s1 = s\<lparr>m_entities := (m_entities s)(entityId \<mapsto> nodes_erase cmNodes cmType)\<rparr>
                in case m_componentTypes s1 cmType of
                     None \<Rightarrow> (Inl Missing_component, s1)
                   | Some enNodes \<Rightarrow>
                       (case enNodes entityId of
                          None \<Rightarrow> (Inl Missing_entity_node, s1)
                        | Some _ \<Rightarrow>
                            (Inr True,
                             s1\<lparr>m_componentTypes :=
                                  (m_componentTypes s1)(cmType \<mapsto> enNodes(entityId := None))\<rparr>)))))"

subsection \<open>getComponent and getEntityNodes\<close>

text \<open>\<^verbatim>\<open>getComponent<T>\<close> only reads; \<^verbatim>\<open>static_pointer_cast<T>\<close> keeps the pointer.\<close>

definition getComponent :: "type_index \<Rightarrow> EntityId \<Rightarrow> EntityManager \<Rightarrow> component_ptr" where
  "getComponent cmType entityId s =
     (case m_entities s entityId of
        None \<Rightarrow> None
      | Some cmNodes \<Rightarrow>
          (case map_of cmNodes cmType of
             None \<Rightarrow> None
           | Some pComponent \<Rightarrow> pComponent))"

text \<open>\<^verbatim>\<open>getEntityNodes<T>\<close>: the result is the map the returned pointer refers to, or
  \<open>None\<close> for \<^verbatim>\<open>nullptr\<close>.\<close>

definition getEntityNodes ::
  "type_index \<Rightarrow> EntityManager \<Rightarrow> EntityNodes option \<times> EntityManager" where
  "getEntityNodes cmType s =
     (case m_componentTypes s cmType of
        None \<Rightarrow>
          (case map_insert (m_componentTypes s) cmType Map.empty of
             (componentTypes', inserted) \<Rightarrow>
               if \<not> inserted then (None, s)
               else (componentTypes' cmType, s\<lparr>m_componentTypes := componentTypes'\<rparr>))
      | Some entityNodes \<Rightarrow> (Some entityNodes, s))"

subsection \<open>markForRemoval and purge\<close>

definition markForRemoval :: "EntityId \<Rightarrow> EntityManager \<Rightarrow> EntityManager" where
  "markForRemoval entityId s =
     (if m_entities s entityId \<noteq> None
      then s\<lparr>m_entitiesMarkedForRemoval := m_entitiesMarkedForRemoval s @ [entityId]\<rparr>
      else s)"

text \<open>The body of \<^verbatim>\<open>for (auto entityId: m_entitiesMarkedForRemoval)\<close>, over the ids still
  to visit; the result of each \<^verbatim>\<open>destroyEntity\<close> is dropped, an exception leaves the loop.\<close>

fun purge_loop :: "EntityId list \<Rightarrow> EntityManager \<Rightarrow> (runtime_error + unit) \<times> EntityManager" where
  "purge_loop [] s = (Inr (), s)"
| "purge_loop (entityId # rest) s =
     (case destroyEntity entityId s of
        (Inl e, s') \<Rightarrow> (Inl e, s')
      | (Inr _, s') \<Rightarrow> purge_loop rest s')"

definition purge :: "EntityManager \<Rightarrow> (runtime_error + unit) \<times> EntityManager" where
  "purge s = purge_loop (m_entitiesMarkedForRemoval s) s"

subsection \<open>The public interface as a transition system\<close>

text \<open>One constructor per public member function, with its arguments, and one per kind of
  result. A call that never returns has no outcome (\<open>None\<close>).\<close>

datatype operation =
    CreateEntity
  | DestroyEntity EntityId
  | DestroyAllEntities
  | AttachComponent EntityId component_ptr
  | DetachComponent type_index EntityId
  | GetComponent type_index EntityId
  | GetEntityNodes type_index
  | MarkForRemoval EntityId
  | Purge

datatype outcome =
    Id EntityId
  | Bool bool
  | Pointer component_ptr
  | Nodes "EntityNodes option"
  | Void
  | Throw runtime_error

definition bool_outcome :: "(runtime_error + bool) \<times> EntityManager \<Rightarrow> outcome \<times> EntityManager" where
  "bool_outcome r = (case fst r of Inl e \<Rightarrow> Throw e | Inr b \<Rightarrow> Bool b, snd r)"

definition void_outcome :: "(runtime_error + unit) \<times> EntityManager \<Rightarrow> outcome \<times> EntityManager" where
  "void_outcome r = (case fst r of Inl e \<Rightarrow> Throw e | Inr _ \<Rightarrow> Void, snd r)"

fun call :: "operation \<Rightarrow> EntityManager \<Rightarrow> (outcome \<times> EntityManager) option" where
  "call CreateEntity s = map_option (\<lambda>r. (Id (fst r), snd r)) (createEntity s)"
| "call (DestroyEntity entityId) s = Some (bool_outcome (destroyEntity entityId s))"
| "call DestroyAllEntities s = Some (Bool (fst (destroyAllEntities s)), snd (destroyAllEntities s))"
| "call (AttachComponent entityId pComponent) s =
     Some (bool_outcome (attachComponent entityId pComponent s))"
| "call (DetachComponent cmType entityId) s = Some (bool_outcome (detachComponent cmType entityId s))"
| "call (GetComponent cmType entityId) s = Some (Pointer (getComponent cmType entityId s), s)"
| "call (GetEntityNodes cmType) s =
     Some (Nodes (fst (getEntityNodes cmType s)), snd (getEntityNodes cmType s))"
| "call (MarkForRemoval entityId) s = Some (Void, markForRemoval entityId s)"
| "call Purge s = Some (void_outcome (purge s))"

text \<open>A client's history: the calls in order, each on the state the previous one left,
  an exception being caught by the client. The result is the list of outcomes and the
  final state.\<close>

fun run :: "operation list \<Rightarrow> EntityManager \<Rightarrow> (outcome list \<times> EntityManager) option" where
  "run [] s = Some ([], s)"
| "run (opn # rest) s =
     (case call opn s of
        None \<Rightarrow> None
      | Some (r, s') \<Rightarrow>
          (case run rest s' of
             None \<Rightarrow> None
           | Some (rs, s'') \<Rightarrow> Some (r # rs, s'')))"

subsection \<open>Views of the two tables and the state invariants\<close>

text \<open>\<^verbatim>\<open>m_entities[e][T]\<close> and \<^verbatim>\<open>m_componentTypes[T][e]\<close>: the stored pointer when both
  the outer and the inner entry exist, \<open>None\<close> when either is missing.\<close>

definition entityTable :: "EntityManager \<Rightarrow> EntityId \<Rightarrow> type_index \<Rightarrow> component_ptr option" where
  "entityTable s e T = (case m_entities s e of None \<Rightarrow> None | Some cmNodes \<Rightarrow> map_of cmNodes T)"

definition typeIndex :: "EntityManager \<Rightarrow> type_index \<Rightarrow> EntityId \<Rightarrow> component_ptr option" where
  "typeIndex s T e = (case m_componentTypes s T of None \<Rightarrow> None | Some enNodes \<Rightarrow> enNodes e)"

text \<open>The two tables agree: an entry of one exists exactly when the entry of the other
  does, with the same pointer.\<close>

definition tables_agree :: "EntityManager \<Rightarrow> bool" where
  "tables_agree s = (\<forall>e T. entityTable s e T = typeIndex s T e)"

text \<open>An \<^verbatim>\<open>unordered_map\<close> holds a key once; the association lists must too.\<close>

definition unique_keys :: "EntityManager \<Rightarrow> bool" where
  "unique_keys s = (\<forall>e cmNodes. m_entities s e = Some cmNodes \<longrightarrow> distinct (map fst cmNodes))"

text \<open>The cursor is never the invalid id, and the invalid id is never live.\<close>

definition cursor_valid :: "EntityManager \<Rightarrow> bool" where
  "cursor_valid s = (m_nextEntityId s \<noteq> InvalidEntity \<and> m_entities s InvalidEntity = None)"

definition invariant :: "EntityManager \<Rightarrow> bool" where
  "invariant s = (cursor_valid s \<and> unique_keys s \<and> tables_agree s)"

subsection \<open>Reading a history\<close>

text \<open>The ids that the \<^verbatim>\<open>createEntity\<close> calls of a history returned, in order, and the
  operations that can remove an entity.\<close>

fun returned_ids :: "outcome list \<Rightarrow> EntityId list" where
  "returned_ids [] = []"
| "returned_ids (Id entityId # rs) = entityId # returned_ids rs"
| "returned_ids (_ # rs) = returned_ids rs"

fun destroys :: "operation \<Rightarrow> bool" where
  "destroys (DestroyEntity _) = True"
| "destroys DestroyAllEntities = True"
| "destroys Purge = True"
| "destroys _ = False"

text \<open>
  Whether an entity \<open>i\<close> that is live gets through a sequence of calls without being
  destroyed. What destroys it is \<^verbatim>\<open>destroyEntity(i)\<close>, \<^verbatim>\<open>destroyAllEntities()\<close>, and a
  \<^verbatim>\<open>purge()\<close> while \<open>i\<close> is in the pending list; \<open>marked\<close> says whether it is in the list
  before the first call, and \<^verbatim>\<open>markForRemoval(i)\<close> puts it there.
\<close>

fun survives :: "EntityId \<Rightarrow> bool \<Rightarrow> operation list \<Rightarrow> bool" where
  "survives i marked [] = True"
| "survives i marked (opn # rest) =
     (opn \<noteq> DestroyEntity i \<and> opn \<noteq> DestroyAllEntities \<and> \<not> (opn = Purge \<and> marked)
      \<and> survives i (marked \<or> opn = MarkForRemoval i) rest)"

text \<open>A long history: \<open>n\<close> rounds of creating an entity and destroying it at once, the
  first of which is given the id \<open>c\<close>.\<close>

fun create_destroy_rounds :: "EntityId \<Rightarrow> nat \<Rightarrow> operation list" where
  "create_destroy_rounds c 0 = []"
| "create_destroy_rounds c (Suc n) =
     CreateEntity # DestroyEntity c # create_destroy_rounds (prevEntityId c) n"

subsection \<open>A variant for the scan of createEntity\<close>

text \<open>The number of steps of \<^const>\<open>prevEntityId\<close> from a non-zero id \<open>c\<close> down to a non-zero
  id \<open>t\<close>, going from 1 back to the maximum: the variant of the \<^verbatim>\<open>while\<close> loop.\<close>

definition scan_dist :: "EntityId \<Rightarrow> EntityId \<Rightarrow> nat" where
  "scan_dist c t =
     (if unat t \<le> unat c then unat c - unat t else unat c + 4294967295 - unat t)"

section \<open>Properties\<close>

subsection \<open>What the loop of destroyEntity touches\<close>

lemma destroyEntity_loop_frame:
  "m_entities (snd (destroyEntity_loop e nodes s)) = m_entities s
   \<and> m_entitiesMarkedForRemoval (snd (destroyEntity_loop e nodes s)) = m_entitiesMarkedForRemoval s
   \<and> m_nextEntityId (snd (destroyEntity_loop e nodes s)) = m_nextEntityId s"
  by (induction nodes arbitrary: s) (auto split: option.splits)

lemma destroyEntity_loop_cong:
  "m_componentTypes s' = m_componentTypes s \<Longrightarrow>
   fst (destroyEntity_loop e nodes s') = fst (destroyEntity_loop e nodes s)
   \<and> m_componentTypes (snd (destroyEntity_loop e nodes s')) =
       m_componentTypes (snd (destroyEntity_loop e nodes s))"
proof (induction nodes arbitrary: s s')
  case Nil
  then show ?case by simp
next
  case (Cons cmNode rest)
  show ?case
  proof (cases "m_componentTypes s (fst cmNode)")
    case None
    with Cons.prems show ?thesis by simp
  next
    case (Some enNodes)
    show ?thesis
    proof (cases "enNodes e")
      case None
      with Some Cons.prems show ?thesis by simp
    next
      case inner: (Some p)
      let ?ct = "(m_componentTypes s)(fst cmNode \<mapsto> enNodes(e := None))"
      have "m_componentTypes (s'\<lparr>m_componentTypes := ?ct\<rparr>) =
            m_componentTypes (s\<lparr>m_componentTypes := ?ct\<rparr>)" by simp
      from Cons.IH [OF this] Some inner Cons.prems show ?thesis by simp
    qed
  qed
qed

lemma destroyEntity_pending:
  "fst (destroyEntity e (s\<lparr>m_entitiesMarkedForRemoval := p\<rparr>)) = fst (destroyEntity e s)
   \<and> m_entities (snd (destroyEntity e (s\<lparr>m_entitiesMarkedForRemoval := p\<rparr>))) =
       m_entities (snd (destroyEntity e s))
   \<and> m_componentTypes (snd (destroyEntity e (s\<lparr>m_entitiesMarkedForRemoval := p\<rparr>))) =
       m_componentTypes (snd (destroyEntity e s))"
proof (cases "m_entities s e")
  case None
  then show ?thesis by (simp add: destroyEntity_def)
next
  case (Some nodes)
  have c: "m_componentTypes (s\<lparr>m_entitiesMarkedForRemoval := p\<rparr>) = m_componentTypes s"
    by simp
  note l = destroyEntity_loop_cong [OF c, of e nodes]
  note f = destroyEntity_loop_frame [of e nodes s]
    destroyEntity_loop_frame [of e nodes "s\<lparr>m_entitiesMarkedForRemoval := p\<rparr>"]
  obtain r s1 where r: "destroyEntity_loop e nodes s = (r, s1)" by fastforce
  obtain r' s1' where r': "destroyEntity_loop e nodes (s\<lparr>m_entitiesMarkedForRemoval := p\<rparr>) = (r', s1')"
    by fastforce
  from l f r r' Some show ?thesis
    by (cases r) (simp_all add: destroyEntity_def)
qed

subsection \<open>markForRemoval\<close>

text \<open>
  Claim C10. \<^verbatim>\<open>markForRemoval(id)\<close> changes neither the entity table nor the
  component-type index (nor the cursor), whatever the state and the id; it appends the id
  to the pending list exactly when the id is live. What \<^verbatim>\<open>getComponent\<close>,
  \<^verbatim>\<open>getEntityNodes\<close> and \<^verbatim>\<open>destroyEntity\<close> return, and the tables \<^verbatim>\<open>destroyEntity\<close>
  leaves, are the same with and without the mark.
\<close>

theorem markForRemoval_frame:
  "m_entities (markForRemoval entityId s) = m_entities s
   \<and> m_componentTypes (markForRemoval entityId s) = m_componentTypes s
   \<and> m_nextEntityId (markForRemoval entityId s) = m_nextEntityId s
   \<and> m_entitiesMarkedForRemoval (markForRemoval entityId s) =
       (if m_entities s entityId \<noteq> None then m_entitiesMarkedForRemoval s @ [entityId]
        else m_entitiesMarkedForRemoval s)
   \<and> getComponent T e (markForRemoval entityId s) = getComponent T e s
   \<and> fst (getEntityNodes T (markForRemoval entityId s)) = fst (getEntityNodes T s)
   \<and> fst (destroyEntity e (markForRemoval entityId s)) = fst (destroyEntity e s)
   \<and> m_entities (snd (destroyEntity e (markForRemoval entityId s))) =
       m_entities (snd (destroyEntity e s))
   \<and> m_componentTypes (snd (destroyEntity e (markForRemoval entityId s))) =
       m_componentTypes (snd (destroyEntity e s))"
  by (simp add: markForRemoval_def getComponent_def getEntityNodes_def map_insert_def
      destroyEntity_pending split: option.splits)

subsection \<open>The result of attachComponent\<close>

text \<open>
  Claim C5. In every state, for a non-null component \<open>c\<close> of kind \<open>typeid c\<close>,
  \<^verbatim>\<open>attachComponent(id, c)\<close> returns \<^verbatim>\<open>true\<close> exactly when the id is live and its entity
  holds no component of that kind, and \<^verbatim>\<open>false\<close> otherwise (unknown id, or a component
  of the kind already attached); with a null pointer it returns \<^verbatim>\<open>false\<close>. It never
  throws, and a call that returns \<^verbatim>\<open>false\<close> leaves the whole state, hence the component
  attached before in both tables, as it was.
\<close>

theorem attachComponent_result:
  "fst (attachComponent entityId (Some c) s) =
     Inr (case m_entities s entityId of None \<Rightarrow> False
          | Some cmNodes \<Rightarrow> map_of cmNodes (typeid c) = None)
   \<and> fst (attachComponent entityId None s) = Inr False
   \<and> (fst (attachComponent entityId p s) = Inr False \<longrightarrow> snd (attachComponent entityId p s) = s)"
  by (auto simp: attachComponent_def nodes_insert_def map_insert_def Let_def split: option.splits)

theorem attachComponent_result_witness:
  "fst (attachComponent 0xFFFFFFFF (Some (Component 11 1))
         \<lparr>m_entities = [0xFFFFFFFF \<mapsto> [(1, Some (Component 10 1))]],
          m_entitiesMarkedForRemoval = [],
          m_componentTypes = [1 \<mapsto> [0xFFFFFFFF \<mapsto> Some (Component 10 1)]],
          m_nextEntityId = 0xFFFFFFFE\<rparr>) = Inr False
   \<and> snd (attachComponent 0xFFFFFFFF (Some (Component 11 1))
         \<lparr>m_entities = [0xFFFFFFFF \<mapsto> [(1, Some (Component 10 1))]],
          m_entitiesMarkedForRemoval = [],
          m_componentTypes = [1 \<mapsto> [0xFFFFFFFF \<mapsto> Some (Component 10 1)]],
          m_nextEntityId = 0xFFFFFFFE\<rparr>) =
         \<lparr>m_entities = [0xFFFFFFFF \<mapsto> [(1, Some (Component 10 1))]],
          m_entitiesMarkedForRemoval = [],
          m_componentTypes = [1 \<mapsto> [0xFFFFFFFF \<mapsto> Some (Component 10 1)]],
          m_nextEntityId = 0xFFFFFFFE\<rparr>
   \<and> fst (attachComponent 0xFFFFFFFF (Some (Component 11 2))
         \<lparr>m_entities = [0xFFFFFFFF \<mapsto> [(1, Some (Component 10 1))]],
          m_entitiesMarkedForRemoval = [],
          m_componentTypes = [1 \<mapsto> [0xFFFFFFFF \<mapsto> Some (Component 10 1)]],
          m_nextEntityId = 0xFFFFFFFE\<rparr>) = Inr True"
  using attachComponent_result
    [of "0xFFFFFFFF" "Component 11 1"
        "\<lparr>m_entities = [0xFFFFFFFF \<mapsto> [(1, Some (Component 10 1))]],
          m_entitiesMarkedForRemoval = [],
          m_componentTypes = [1 \<mapsto> [0xFFFFFFFF \<mapsto> Some (Component 10 1)]],
          m_nextEntityId = 0xFFFFFFFE\<rparr>" "Some (Component 11 1)"]
    attachComponent_result
    [of "0xFFFFFFFF" "Component 11 2"
        "\<lparr>m_entities = [0xFFFFFFFF \<mapsto> [(1, Some (Component 10 1))]],
          m_entitiesMarkedForRemoval = [],
          m_componentTypes = [1 \<mapsto> [0xFFFFFFFF \<mapsto> Some (Component 10 1)]],
          m_nextEntityId = 0xFFFFFFFE\<rparr>" None]
  by simp

subsection \<open>Association lists, attachComponent and detachComponent\<close>

lemma map_of_nodes_erase:
  "map_of (nodes_erase nodes T) T' = (if T' = T then None else map_of nodes T')"
  by (induction nodes) (auto simp: nodes_erase_def)

lemma distinct_nodes_erase:
  "distinct (map fst nodes) \<Longrightarrow> distinct (map fst (nodes_erase nodes T))"
  by (simp add: nodes_erase_def distinct_map_filter)

lemma map_of_nodes_append:
  "map_of nodes T = None \<Longrightarrow>
   map_of (nodes @ [(T, p)]) T' = (if T' = T then Some p else map_of nodes T')"
  by (simp add: map_add_def split: option.splits)

lemma distinct_nodes_append:
  "map_of nodes T = None \<Longrightarrow> distinct (map fst nodes) \<Longrightarrow> distinct (map fst (nodes @ [(T, p)]))"
  by (simp add: map_of_eq_None_iff)

text \<open>\<^verbatim>\<open>attachComponent\<close>: fields it leaves alone, and its effect on the two views.\<close>

lemma attachComponent_fields:
  "m_entitiesMarkedForRemoval (snd (attachComponent e p s)) = m_entitiesMarkedForRemoval s
   \<and> m_nextEntityId (snd (attachComponent e p s)) = m_nextEntityId s
   \<and> dom (m_entities (snd (attachComponent e p s))) = dom (m_entities s)"
  by (auto simp: attachComponent_def nodes_insert_def map_insert_def Let_def split: option.splits)

lemma attachComponent_True_entityTable:
  "fst (attachComponent e p s) = Inr True \<Longrightarrow>
   entityTable (snd (attachComponent e p s)) e' T' =
     (if e' = e \<and> T' = typeid (the p) then Some p else entityTable s e' T')"
  by (auto simp: attachComponent_def nodes_insert_def map_insert_def Let_def entityTable_def
      map_add_def split: option.splits)

lemma attachComponent_True_typeIndex:
  "fst (attachComponent e p s) = Inr True \<Longrightarrow> typeIndex s (typeid (the p)) e = None \<Longrightarrow>
   typeIndex (snd (attachComponent e p s)) T' e' =
     (if e' = e \<and> T' = typeid (the p) then Some p else typeIndex s T' e')"
  by (auto simp: attachComponent_def nodes_insert_def map_insert_def Let_def typeIndex_def
      split: option.splits)

lemma attachComponent_True_pre:
  "fst (attachComponent e p s) = Inr True \<Longrightarrow> entityTable s e (typeid (the p)) = None \<and> p \<noteq> None
     \<and> m_entities s e \<noteq> None"
  by (auto simp: attachComponent_def nodes_insert_def map_insert_def Let_def entityTable_def
      split: option.splits)

lemma attachComponent_no_throw: "fst (attachComponent e p s) \<noteq> Inl err"
  by (auto simp: attachComponent_def nodes_insert_def map_insert_def Let_def
      split: option.splits)

lemma attachComponent_False: "fst (attachComponent e p s) = Inr False \<Longrightarrow> snd (attachComponent e p s) = s"
  by (auto simp: attachComponent_def nodes_insert_def map_insert_def Let_def
      split: option.splits)

lemma attachComponent_unique_keys:
  "unique_keys s \<Longrightarrow> unique_keys (snd (attachComponent e p s))"
  by (auto simp: attachComponent_def nodes_insert_def map_insert_def Let_def unique_keys_def
      map_of_eq_None_iff split: option.splits)

lemma attachComponent_tables_agree:
  assumes "tables_agree s"
  shows "tables_agree (snd (attachComponent e p s))"
proof (cases "fst (attachComponent e p s)")
  case (Inl err)
  then show ?thesis by (simp add: attachComponent_no_throw)
next
  case (Inr b)
  show ?thesis
  proof (cases b)
    case False
    with Inr assms show ?thesis by (simp add: attachComponent_False)
  next
    case True
    with Inr have t: "fst (attachComponent e p s) = Inr True" by simp
    from attachComponent_True_pre [OF t] assms
    have "typeIndex s (typeid (the p)) e = None" by (simp add: tables_agree_def)
    with t assms show ?thesis
      by (simp add: tables_agree_def attachComponent_True_entityTable
          attachComponent_True_typeIndex)
  qed
qed

text \<open>\<^verbatim>\<open>detachComponent\<close>, likewise.\<close>

lemma detachComponent_fields:
  "m_entitiesMarkedForRemoval (snd (detachComponent T e s)) = m_entitiesMarkedForRemoval s
   \<and> m_nextEntityId (snd (detachComponent T e s)) = m_nextEntityId s
   \<and> dom (m_entities (snd (detachComponent T e s))) = dom (m_entities s)"
  by (auto simp: detachComponent_def Let_def split: option.splits)

lemma detachComponent_True_entityTable:
  "fst (detachComponent T e s) = Inr True \<Longrightarrow>
   entityTable (snd (detachComponent T e s)) e' T' =
     (if e' = e \<and> T' = T then None else entityTable s e' T')"
  by (auto simp: detachComponent_def Let_def entityTable_def map_of_nodes_erase
      split: option.splits)

lemma detachComponent_True_typeIndex:
  "fst (detachComponent T e s) = Inr True \<Longrightarrow>
   typeIndex (snd (detachComponent T e s)) T' e' =
     (if e' = e \<and> T' = T then None else typeIndex s T' e')"
  by (auto simp: detachComponent_def Let_def typeIndex_def split: option.splits)

lemma detachComponent_False: "fst (detachComponent T e s) = Inr False \<Longrightarrow> snd (detachComponent T e s) = s"
  by (auto simp: detachComponent_def Let_def split: option.splits)

lemma detachComponent_result:
  assumes "tables_agree s"
  shows "fst (detachComponent T e s) = Inr (entityTable s e T \<noteq> None)"
proof -
  from assms have "entityTable s e T = typeIndex s T e" by (simp add: tables_agree_def)
  then show ?thesis
    by (auto simp: detachComponent_def Let_def entityTable_def typeIndex_def
        split: option.splits)
qed

lemma detachComponent_unique_keys:
  "unique_keys s \<Longrightarrow> unique_keys (snd (detachComponent T e s))"
  by (auto simp: detachComponent_def Let_def unique_keys_def distinct_nodes_erase
      split: option.splits)

lemma detachComponent_tables_agree:
  assumes "tables_agree s"
  shows "tables_agree (snd (detachComponent T e s))"
proof (cases "entityTable s e T = None")
  case True
  with assms show ?thesis by (simp add: detachComponent_result detachComponent_False)
next
  case False
  with assms have "fst (detachComponent T e s) = Inr True" by (simp add: detachComponent_result)
  with assms show ?thesis
    by (simp add: tables_agree_def detachComponent_True_entityTable detachComponent_True_typeIndex)
qed

subsection \<open>destroyEntity\<close>

lemma destroyEntity_loop_typeIndex:
  "fst (destroyEntity_loop e nodes s) = Inr () \<Longrightarrow>
   typeIndex (snd (destroyEntity_loop e nodes s)) T e' =
     (if e' = e \<and> T \<in> fst ` set nodes then None else typeIndex s T e')"
proof (induction nodes arbitrary: s)
  case Nil
  then show ?case by simp
next
  case (Cons cmNode rest)
  from Cons.prems obtain enNodes p where
    ct: "m_componentTypes s (fst cmNode) = Some enNodes" and en: "enNodes e = Some p"
    by (auto split: option.splits)
  let ?s1 = "s\<lparr>m_componentTypes := (m_componentTypes s)(fst cmNode \<mapsto> enNodes(e := None))\<rparr>"
  have step: "destroyEntity_loop e (cmNode # rest) s = destroyEntity_loop e rest ?s1"
    using ct en by simp
  have s1: "typeIndex ?s1 T e' = (if e' = e \<and> T = fst cmNode then None else typeIndex s T e')"
    using ct by (simp add: typeIndex_def)
  from Cons.prems step have "fst (destroyEntity_loop e rest ?s1) = Inr ()" by simp
  from Cons.IH [OF this] step s1 show ?case by auto
qed

lemma destroyEntity_loop_no_throw:
  "distinct (map fst nodes) \<Longrightarrow> \<forall>T \<in> fst ` set nodes. typeIndex s T e \<noteq> None \<Longrightarrow>
   fst (destroyEntity_loop e nodes s) = Inr ()"
proof (induction nodes arbitrary: s)
  case Nil
  then show ?case by simp
next
  case (Cons cmNode rest)
  from Cons.prems(2) have "typeIndex s (fst cmNode) e \<noteq> None" by simp
  then obtain enNodes p where
    ct: "m_componentTypes s (fst cmNode) = Some enNodes" and en: "enNodes e = Some p"
    by (auto simp: typeIndex_def split: option.splits)
  let ?s1 = "s\<lparr>m_componentTypes := (m_componentTypes s)(fst cmNode \<mapsto> enNodes(e := None))\<rparr>"
  have step: "destroyEntity_loop e (cmNode # rest) s = destroyEntity_loop e rest ?s1"
    using ct en by simp
  have "\<forall>T \<in> fst ` set rest. typeIndex ?s1 T e \<noteq> None"
  proof
    fix T assume T: "T \<in> fst ` set rest"
    from Cons.prems(1) have "fst cmNode \<notin> fst ` set rest" by simp
    with T have "T \<noteq> fst cmNode" by blast
    moreover from T Cons.prems(2) have "typeIndex s T e \<noteq> None" by auto
    ultimately show "typeIndex ?s1 T e \<noteq> None" by (simp add: typeIndex_def)
  qed
  moreover from Cons.prems(1) have "distinct (map fst rest)" by simp
  ultimately have "fst (destroyEntity_loop e rest ?s1) = Inr ()" by (simp add: Cons.IH)
  with step show ?case by simp
qed

text \<open>\<^verbatim>\<open>destroyEntity\<close>: an unknown id, and what a \<^verbatim>\<open>true\<close> result leaves.\<close>

lemma destroyEntity_unknown: "m_entities s e = None \<Longrightarrow> destroyEntity e s = (Inr False, s)"
  by (simp add: destroyEntity_def)

lemma destroyEntity_False: "fst (destroyEntity e s) = Inr False \<Longrightarrow> m_entities s e = None"
  by (auto simp: destroyEntity_def split: option.splits prod.splits sum.splits)

lemma destroyEntity_fields:
  "m_entitiesMarkedForRemoval (snd (destroyEntity e s)) = m_entitiesMarkedForRemoval s
   \<and> m_nextEntityId (snd (destroyEntity e s)) = m_nextEntityId s"
proof (cases "m_entities s e")
  case None
  then show ?thesis by (simp add: destroyEntity_def)
next
  case (Some nodes)
  obtain r s1 where r: "destroyEntity_loop e nodes s = (r, s1)" by fastforce
  with destroyEntity_loop_frame [of e nodes s] Some show ?thesis
    by (cases r) (simp_all add: destroyEntity_def)
qed

lemma destroyEntity_True_entities:
  assumes "fst (destroyEntity e s) = Inr True"
  shows "m_entities (snd (destroyEntity e s)) = (m_entities s)(e := None)"
proof (cases "m_entities s e")
  case None
  with assms show ?thesis by (simp add: destroyEntity_def)
next
  case (Some nodes)
  obtain r s1 where r: "destroyEntity_loop e nodes s = (r, s1)" by fastforce
  with destroyEntity_loop_frame [of e nodes s] Some show ?thesis
    by (cases r) (use assms in \<open>simp_all add: destroyEntity_def\<close>)
qed

lemma destroyEntity_True_entityTable:
  "fst (destroyEntity e s) = Inr True \<Longrightarrow>
   entityTable (snd (destroyEntity e s)) e' T = (if e' = e then None else entityTable s e' T)"
  by (simp add: entityTable_def destroyEntity_True_entities)

lemma destroyEntity_True_typeIndex:
  assumes "fst (destroyEntity e s) = Inr True" and "tables_agree s"
  shows "typeIndex (snd (destroyEntity e s)) T e' = (if e' = e then None else typeIndex s T e')"
proof (cases "m_entities s e")
  case None
  with assms show ?thesis by (simp add: destroyEntity_def)
next
  case (Some nodes)
  obtain r s1 where r: "destroyEntity_loop e nodes s = (r, s1)" by fastforce
  with assms(1) Some have ok: "fst (destroyEntity_loop e nodes s) = Inr ()"
    by (cases r) (simp_all add: destroyEntity_def)
  with r Some have "snd (destroyEntity e s) = s1\<lparr>m_entities := (m_entities s1)(e := None)\<rparr>"
    by (cases r) (simp_all add: destroyEntity_def)
  then have "typeIndex (snd (destroyEntity e s)) T e' = typeIndex s1 T e'"
    by (simp add: typeIndex_def)
  also from destroyEntity_loop_typeIndex [OF ok, of T e'] r
  have "\<dots> = (if e' = e \<and> T \<in> fst ` set nodes then None else typeIndex s T e')" by simp
  also have "\<dots> = (if e' = e then None else typeIndex s T e')"
  proof (cases "e' = e \<and> T \<notin> fst ` set nodes")
    case True
    then have "map_of nodes T = None" by (simp add: map_of_eq_None_iff)
    with Some have "entityTable s e T = None" by (simp add: entityTable_def)
    with assms(2) have "typeIndex s T e = None" by (simp add: tables_agree_def)
    with True show ?thesis by simp
  next
    case False
    then show ?thesis by auto
  qed
  finally show ?thesis .
qed

lemma destroyEntity_result:
  assumes "unique_keys s" and "tables_agree s"
  shows "fst (destroyEntity e s) = Inr (m_entities s e \<noteq> None)"
proof (cases "m_entities s e")
  case None
  then show ?thesis by (simp add: destroyEntity_def)
next
  case (Some nodes)
  with assms(1) have d: "distinct (map fst nodes)" by (simp add: unique_keys_def)
  have "\<forall>T \<in> fst ` set nodes. typeIndex s T e \<noteq> None"
  proof
    fix T assume "T \<in> fst ` set nodes"
    then have "map_of nodes T \<noteq> None" by (simp add: map_of_eq_None_iff)
    with Some have "entityTable s e T \<noteq> None" by (simp add: entityTable_def)
    with assms(2) show "typeIndex s T e \<noteq> None" by (simp add: tables_agree_def)
  qed
  with d have ok: "fst (destroyEntity_loop e nodes s) = Inr ()"
    by (rule destroyEntity_loop_no_throw)
  obtain r s1 where r: "destroyEntity_loop e nodes s = (r, s1)" by fastforce
  with ok Some show ?thesis by (cases r) (simp_all add: destroyEntity_def)
qed

lemma destroyEntity_unique_keys:
  assumes "unique_keys s" and "tables_agree s"
  shows "unique_keys (snd (destroyEntity e s))"
proof (cases "m_entities s e")
  case None
  with assms show ?thesis by (simp add: destroyEntity_def)
next
  case (Some nodes)
  with assms have "fst (destroyEntity e s) = Inr True" by (simp add: destroyEntity_result)
  from destroyEntity_True_entities [OF this] assms(1) show ?thesis
    by (simp add: unique_keys_def)
qed

lemma destroyEntity_tables_agree:
  assumes "unique_keys s" and "tables_agree s"
  shows "tables_agree (snd (destroyEntity e s))"
proof (cases "m_entities s e")
  case None
  with assms show ?thesis by (simp add: destroyEntity_def)
next
  case (Some nodes)
  with assms have "fst (destroyEntity e s) = Inr True" by (simp add: destroyEntity_result)
  with assms(2) show ?thesis
    by (simp add: tables_agree_def destroyEntity_True_entityTable destroyEntity_True_typeIndex)
qed

subsection \<open>purge and the remaining operations\<close>

text \<open>\<^verbatim>\<open>purge\<close>: the loop keeps the invariants, never throws in a consistent state, and
  leaves the pending list and the cursor alone.\<close>

lemma purge_loop_fields:
  "m_entitiesMarkedForRemoval (snd (purge_loop ids s)) = m_entitiesMarkedForRemoval s
   \<and> m_nextEntityId (snd (purge_loop ids s)) = m_nextEntityId s"
proof (induction ids arbitrary: s)
  case Nil
  then show ?case by simp
next
  case (Cons entityId rest)
  obtain r s1 where r: "destroyEntity entityId s = (r, s1)" by fastforce
  with destroyEntity_fields [of entityId s] Cons.IH [of s1] show ?case
    by (cases r) simp_all
qed

lemma purge_loop_invariant:
  "unique_keys s \<Longrightarrow> tables_agree s \<Longrightarrow>
   fst (purge_loop ids s) = Inr () \<and> unique_keys (snd (purge_loop ids s))
   \<and> tables_agree (snd (purge_loop ids s))
   \<and> dom (m_entities (snd (purge_loop ids s))) = dom (m_entities s) - set ids"
proof (induction ids arbitrary: s)
  case Nil
  then show ?case by simp
next
  case (Cons entityId rest)
  obtain r s1 where r: "destroyEntity entityId s = (r, s1)" by fastforce
  from Cons.prems have res: "fst (destroyEntity entityId s) = Inr (m_entities s entityId \<noteq> None)"
    by (rule destroyEntity_result)
  with r obtain b where b: "r = Inr b" by simp
  from Cons.prems r have "unique_keys s1" "tables_agree s1"
    using destroyEntity_unique_keys [of s entityId] destroyEntity_tables_agree [of s entityId]
    by simp_all
  note ih = Cons.IH [OF this]
  have "dom (m_entities s1) = dom (m_entities s) - {entityId}"
  proof (cases "m_entities s entityId")
    case None
    with r show ?thesis by (auto simp: destroyEntity_unknown)
  next
    case (Some nodes)
    with res have "fst (destroyEntity entityId s) = Inr True" by simp
    from destroyEntity_True_entities [OF this] r show ?thesis by simp
  qed
  with ih r b show ?case by auto
qed

lemma purge_fields:
  "m_entitiesMarkedForRemoval (snd (purge s)) = m_entitiesMarkedForRemoval s
   \<and> m_nextEntityId (snd (purge s)) = m_nextEntityId s"
  by (simp add: purge_def purge_loop_fields)

text \<open>\<^verbatim>\<open>getEntityNodes\<close>, \<^verbatim>\<open>destroyAllEntities\<close> and \<^verbatim>\<open>markForRemoval\<close>.\<close>

lemma getEntityNodes_fields:
  "m_entities (snd (getEntityNodes T s)) = m_entities s
   \<and> m_entitiesMarkedForRemoval (snd (getEntityNodes T s)) = m_entitiesMarkedForRemoval s
   \<and> m_nextEntityId (snd (getEntityNodes T s)) = m_nextEntityId s"
  by (simp add: getEntityNodes_def map_insert_def split: option.splits)

lemma getEntityNodes_typeIndex:
  "typeIndex (snd (getEntityNodes T s)) T' e = typeIndex s T' e"
  by (simp add: getEntityNodes_def map_insert_def typeIndex_def split: option.splits)

lemma getEntityNodes_result:
  "\<exists>enNodes. fst (getEntityNodes T s) = Some enNodes \<and> enNodes = typeIndex s T
     \<and> m_componentTypes (snd (getEntityNodes T s)) T = Some enNodes"
  by (auto simp: getEntityNodes_def map_insert_def typeIndex_def split: option.splits)

lemma getEntityNodes_invariant:
  "invariant s \<Longrightarrow> invariant (snd (getEntityNodes T s))"
  by (simp add: invariant_def cursor_valid_def unique_keys_def tables_agree_def entityTable_def
      getEntityNodes_fields getEntityNodes_typeIndex)

lemma destroyAllEntities_invariant:
  "invariant s \<Longrightarrow> invariant (snd (destroyAllEntities s))"
  by (simp add: invariant_def cursor_valid_def unique_keys_def tables_agree_def entityTable_def
      typeIndex_def destroyAllEntities_def)

lemma markForRemoval_invariant:
  "invariant s \<Longrightarrow> invariant (markForRemoval e s)"
  by (simp add: invariant_def cursor_valid_def unique_keys_def tables_agree_def entityTable_def
      typeIndex_def markForRemoval_def)

lemma attachComponent_invariant:
  assumes "invariant s"
  shows "invariant (snd (attachComponent e p s))"
proof -
  from attachComponent_fields [of e p s] assms
  have "cursor_valid (snd (attachComponent e p s))"
    by (auto simp: invariant_def cursor_valid_def)
  with assms show ?thesis
    by (simp add: invariant_def attachComponent_unique_keys attachComponent_tables_agree)
qed

lemma detachComponent_invariant:
  assumes "invariant s"
  shows "invariant (snd (detachComponent T e s))"
proof -
  from detachComponent_fields [of T e s] assms
  have "cursor_valid (snd (detachComponent T e s))"
    by (auto simp: invariant_def cursor_valid_def)
  with assms show ?thesis
    by (simp add: invariant_def detachComponent_unique_keys detachComponent_tables_agree)
qed

lemma destroyEntity_invariant:
  assumes "invariant s"
  shows "invariant (snd (destroyEntity e s))"
proof -
  from assms have u: "unique_keys s" and t: "tables_agree s" by (simp_all add: invariant_def)
  have "m_entities (snd (destroyEntity e s)) InvalidEntity = None"
  proof (cases "m_entities s e")
    case None
    with assms show ?thesis by (simp add: destroyEntity_unknown invariant_def cursor_valid_def)
  next
    case (Some nodes)
    with u t have "fst (destroyEntity e s) = Inr True" by (simp add: destroyEntity_result)
    from destroyEntity_True_entities [OF this] assms show ?thesis
      by (simp add: invariant_def cursor_valid_def)
  qed
  with assms destroyEntity_fields [of e s] have "cursor_valid (snd (destroyEntity e s))"
    by (simp add: invariant_def cursor_valid_def)
  with u t show ?thesis
    by (simp add: invariant_def destroyEntity_unique_keys destroyEntity_tables_agree)
qed

lemma purge_invariant:
  assumes "invariant s"
  shows "invariant (snd (purge s)) \<and> fst (purge s) = Inr ()"
proof -
  from assms have u: "unique_keys s" and t: "tables_agree s" by (simp_all add: invariant_def)
  note l = purge_loop_invariant [OF u t, of "m_entitiesMarkedForRemoval s"]
  from l have "dom (m_entities (snd (purge s))) \<subseteq> dom (m_entities s)"
    by (auto simp: purge_def)
  with assms have "m_entities (snd (purge s)) InvalidEntity = None"
    by (auto simp: invariant_def cursor_valid_def)
  with assms purge_fields [of s] have "cursor_valid (snd (purge s))"
    by (simp add: invariant_def cursor_valid_def)
  with l show ?thesis by (simp add: invariant_def purge_def)
qed

subsection \<open>The scan of createEntity ends at the first free id\<close>

lemma prevEntityId_nonzero: "c \<noteq> 0 \<Longrightarrow> prevEntityId c \<noteq> 0"
  by (simp add: prevEntityId_def maxEntityId_def)

lemma unat_prevEntityId:
  assumes "c \<noteq> 0"
  shows "unat (prevEntityId c) = (if unat c = 1 then 4294967295 else unat c - 1)"
proof -
  have "(unat c = 1) = (c = 1)" using word_unat_eq_iff [of c 1] by simp
  with assms show ?thesis
    by (simp add: prevEntityId_def maxEntityId_def unat_minus_one)
qed

lemma scan_dist_prevEntityId:
  assumes "c \<noteq> 0" "t \<noteq> 0" "c \<noteq> t"
  shows "scan_dist (prevEntityId c) t < scan_dist c t"
proof -
  from assms(1) have c: "0 < unat c" by (simp add: unat_gt_0)
  from assms(2) have t: "0 < unat t" by (simp add: unat_gt_0)
  from assms(3) have ne: "unat c \<noteq> unat t" by (simp add: word_unat_eq_iff)
  have tb: "unat t \<le> 4294967295" using unsigned_less [of t, where ?'a = nat] by simp
  from c t ne tb show ?thesis
    by (auto simp: scan_dist_def unat_prevEntityId [OF assms(1)])
qed

lemma findAvailable_total:
  assumes free: "m t = None" and t: "t \<noteq> 0"
  shows "c \<noteq> 0 \<Longrightarrow>
    \<exists>k. findAvailable m c = Some ((prevEntityId ^^ k) c)
       \<and> m ((prevEntityId ^^ k) c) = None
       \<and> (\<forall>j<k. m ((prevEntityId ^^ j) c) \<noteq> None)
       \<and> (\<forall>j\<le>k. (prevEntityId ^^ j) c \<noteq> 0)"
proof (induction "scan_dist c t" arbitrary: c rule: less_induct)
  case less
  show ?case
  proof (cases "m c")
    case None
    then have "findAvailable m c = Some c" by (subst findAvailable.simps) simp
    with None less.prems show ?thesis by (intro exI [of _ 0]) simp
  next
    case (Some nodes)
    with free have "c \<noteq> t" by auto
    with less.prems t have "scan_dist (prevEntityId c) t < scan_dist c t"
      by (simp add: scan_dist_prevEntityId)
    from less.hyps [OF this prevEntityId_nonzero [OF less.prems]]
    obtain k where k: "findAvailable m (prevEntityId c) = Some ((prevEntityId ^^ k) (prevEntityId c))"
      "m ((prevEntityId ^^ k) (prevEntityId c)) = None"
      "\<forall>j<k. m ((prevEntityId ^^ j) (prevEntityId c)) \<noteq> None"
      "\<forall>j\<le>k. (prevEntityId ^^ j) (prevEntityId c) \<noteq> 0"
      by blast
    from Some have step: "findAvailable m c = findAvailable m (prevEntityId c)"
      by (subst findAvailable.simps) simp
    have "\<forall>j<Suc k. m ((prevEntityId ^^ j) c) \<noteq> None"
    proof (intro allI impI)
      fix j assume "j < Suc k"
      with k(3) Some show "m ((prevEntityId ^^ j) c) \<noteq> None"
        by (cases j) (simp_all add: funpow_swap1)
    qed
    moreover have "\<forall>j\<le>Suc k. (prevEntityId ^^ j) c \<noteq> 0"
    proof (intro allI impI)
      fix j assume "j \<le> Suc k"
      with k(4) less.prems show "(prevEntityId ^^ j) c \<noteq> 0"
        by (cases j) (simp_all add: funpow_swap1)
    qed
    ultimately show ?thesis using k(1,2) step
      by (intro exI [of _ "Suc k"]) (simp add: funpow_swap1)
  qed
qed

subsection \<open>createEntity\<close>

text \<open>\<^verbatim>\<open>m_entities.size() == maxEntityId\<close> holds exactly when every id but 0 is live.\<close>

lemma size_is_max_iff:
  assumes "cursor_valid s"
  shows "(card (dom (m_entities s)) = unat maxEntityId) = (\<forall>i. i \<noteq> 0 \<longrightarrow> m_entities s i \<noteq> None)"
proof -
  let ?D = "dom (m_entities s)"
  from assms have sub: "?D \<subseteq> UNIV - {0}"
    by (auto simp: cursor_valid_def InvalidEntity_def)
  have c: "card (UNIV - {0 :: EntityId}) = 4294967295"
    by (simp add: card_Diff_singleton card_word)
  have m: "unat maxEntityId = 4294967295" by (simp add: maxEntityId_def)
  show ?thesis
  proof
    assume "card ?D = unat maxEntityId"
    with c m have "card ?D = card (UNIV - {0 :: EntityId})" by simp
    with sub have "?D = UNIV - {0}" by (intro card_subset_eq) simp_all
    then show "\<forall>i. i \<noteq> 0 \<longrightarrow> m_entities s i \<noteq> None" by auto
  next
    assume "\<forall>i. i \<noteq> 0 \<longrightarrow> m_entities s i \<noteq> None"
    then have "UNIV - {0} \<subseteq> ?D" by auto
    with sub have "?D = UNIV - {0}" by blast
    with c m show "card ?D = unat maxEntityId" by simp
  qed
qed

lemma createEntity_exhausted:
  assumes "cursor_valid s" and "\<forall>i. i \<noteq> 0 \<longrightarrow> m_entities s i \<noteq> None"
  shows "createEntity s = Some (InvalidEntity, s)"
  using assms size_is_max_iff [of s] by (simp add: createEntity_def)

lemma createEntity_fresh:
  assumes "cursor_valid s" and "m_entities s t = None" and "t \<noteq> 0"
  shows "\<exists>k. createEntity s =
           Some ((prevEntityId ^^ k) (m_nextEntityId s),
                 s\<lparr>m_entities := (m_entities s)((prevEntityId ^^ k) (m_nextEntityId s) \<mapsto> []),
                   m_nextEntityId := prevEntityId ((prevEntityId ^^ k) (m_nextEntityId s))\<rparr>)
         \<and> m_entities s ((prevEntityId ^^ k) (m_nextEntityId s)) = None
         \<and> (\<forall>j<k. m_entities s ((prevEntityId ^^ j) (m_nextEntityId s)) \<noteq> None)
         \<and> (\<forall>j\<le>k. (prevEntityId ^^ j) (m_nextEntityId s) \<noteq> 0)"
proof -
  from assms(1) have "m_nextEntityId s \<noteq> 0" by (simp add: cursor_valid_def InvalidEntity_def)
  from findAvailable_total [of "m_entities s" t "m_nextEntityId s", OF assms(2,3) this]
  obtain k where k: "findAvailable (m_entities s) (m_nextEntityId s) =
        Some ((prevEntityId ^^ k) (m_nextEntityId s))"
      "m_entities s ((prevEntityId ^^ k) (m_nextEntityId s)) = None"
      "\<forall>j<k. m_entities s ((prevEntityId ^^ j) (m_nextEntityId s)) \<noteq> None"
      "\<forall>j\<le>k. (prevEntityId ^^ j) (m_nextEntityId s) \<noteq> 0"
    by blast
  from assms have "card (dom (m_entities s)) \<noteq> unat maxEntityId"
    using size_is_max_iff [of s] by auto
  with k(1,2) have "createEntity s =
           Some ((prevEntityId ^^ k) (m_nextEntityId s),
                 s\<lparr>m_entities := (m_entities s)((prevEntityId ^^ k) (m_nextEntityId s) \<mapsto> []),
                   m_nextEntityId := prevEntityId ((prevEntityId ^^ k) (m_nextEntityId s))\<rparr>)"
    by (simp add: createEntity_def map_insert_def)
  with k(2,3,4) show ?thesis by blast
qed

text \<open>In a state with a valid cursor \<^verbatim>\<open>createEntity\<close> returns, with one of two outcomes.\<close>

lemma createEntity_cases:
  assumes "cursor_valid s"
  obtains (exhausted) "createEntity s = Some (InvalidEntity, s)"
      "\<forall>i. i \<noteq> 0 \<longrightarrow> m_entities s i \<noteq> None"
  | (fresh) entityId where
      "createEntity s = Some (entityId,
          s\<lparr>m_entities := (m_entities s)(entityId \<mapsto> []), m_nextEntityId := prevEntityId entityId\<rparr>)"
      "m_entities s entityId = None" "entityId \<noteq> 0"
proof (cases "\<forall>i. i \<noteq> 0 \<longrightarrow> m_entities s i \<noteq> None")
  case True
  with assms show ?thesis by (intro exhausted createEntity_exhausted)
next
  case False
  then obtain t where "m_entities s t = None" "t \<noteq> 0" by auto
  from createEntity_fresh [OF assms this] show ?thesis by (auto intro: fresh)
qed

lemma createEntity_invariant:
  assumes "invariant s"
  shows "\<exists>entityId s'. createEntity s = Some (entityId, s') \<and> invariant s'"
proof -
  from assms have cv: "cursor_valid s" by (simp add: invariant_def)
  then show ?thesis
  proof (cases rule: createEntity_cases)
    case exhausted
    with assms show ?thesis by simp
  next
    case (fresh entityId)
    let ?s' = "s\<lparr>m_entities := (m_entities s)(entityId \<mapsto> []),
                  m_nextEntityId := prevEntityId entityId\<rparr>"
    from cv fresh(3) have "cursor_valid ?s'"
      by (simp add: cursor_valid_def InvalidEntity_def prevEntityId_nonzero)
    moreover from assms have "unique_keys ?s'" by (simp add: invariant_def unique_keys_def)
    moreover have "tables_agree ?s'"
    proof -
      have "entityTable ?s' e T = entityTable s e T" for e T
        using fresh(2) by (simp add: entityTable_def)
      moreover have "typeIndex ?s' T e = typeIndex s T e" for e T
        by (simp add: typeIndex_def)
      ultimately show ?thesis using assms by (simp add: invariant_def tables_agree_def)
    qed
    ultimately have "invariant ?s'" by (simp add: invariant_def)
    with fresh(1) show ?thesis by simp
  qed
qed

subsection \<open>Histories from a fresh manager\<close>

lemma invariant_new: "invariant EntityManager_new"
  by (simp add: invariant_def cursor_valid_def unique_keys_def tables_agree_def entityTable_def
      typeIndex_def EntityManager_new_def maxEntityId_def InvalidEntity_def)

text \<open>Every call on a consistent state returns, without an exception, in a consistent state.\<close>

lemma call_invariant:
  assumes "invariant s"
  shows "\<exists>r s'. call opn s = Some (r, s') \<and> invariant s' \<and> (\<forall>err. r \<noteq> Throw err)"
proof (cases opn)
  case CreateEntity
  with createEntity_invariant [OF assms] show ?thesis by auto
next
  case (DestroyEntity e)
  from assms have "fst (destroyEntity e s) = Inr (m_entities s e \<noteq> None)"
    by (simp add: invariant_def destroyEntity_result)
  with DestroyEntity destroyEntity_invariant [OF assms, of e] show ?thesis
    by (simp add: bool_outcome_def)
next
  case DestroyAllEntities
  with destroyAllEntities_invariant [OF assms] show ?thesis by simp
next
  case (AttachComponent e p)
  have "\<forall>err. (case fst (attachComponent e p s) of Inl e \<Rightarrow> Throw e | Inr b \<Rightarrow> Bool b) \<noteq> Throw err"
    using attachComponent_no_throw [of e p s] by (auto split: sum.splits)
  with AttachComponent attachComponent_invariant [OF assms, of e p] show ?thesis
    by (simp add: bool_outcome_def)
next
  case (DetachComponent T e)
  from assms have "fst (detachComponent T e s) = Inr (entityTable s e T \<noteq> None)"
    by (simp add: invariant_def detachComponent_result)
  with DetachComponent detachComponent_invariant [OF assms, of T e] show ?thesis
    by (simp add: bool_outcome_def)
next
  case (GetComponent T e)
  with assms show ?thesis by simp
next
  case (GetEntityNodes T)
  with getEntityNodes_invariant [OF assms, of T] show ?thesis by simp
next
  case (MarkForRemoval e)
  with markForRemoval_invariant [OF assms, of e] show ?thesis by simp
next
  case Purge
  with purge_invariant [OF assms] show ?thesis by (simp add: void_outcome_def)
qed

lemma run_invariant:
  "invariant s \<Longrightarrow>
   \<exists>rs s'. run ops s = Some (rs, s') \<and> invariant s' \<and> (\<forall>err. Throw err \<notin> set rs)"
proof (induction ops arbitrary: s)
  case Nil
  then show ?case by simp
next
  case (Cons opn rest)
  from call_invariant [OF Cons.prems, of opn]
  obtain r s1 where c: "call opn s = Some (r, s1)" "invariant s1" "\<forall>err. r \<noteq> Throw err"
    by blast
  from Cons.IH [OF c(2)]
  obtain rs s' where r: "run rest s1 = Some (rs, s')" "invariant s'" "\<forall>err. Throw err \<notin> set rs"
    by blast
  from c r show ?case by auto
qed

lemma tables_agree_raw:
  "tables_agree s =
     (\<forall>e T c. (\<exists>cmNodes. m_entities s e = Some cmNodes \<and> map_of cmNodes T = Some c) =
              (\<exists>enNodes. m_componentTypes s T = Some enNodes \<and> enNodes e = Some c))"
proof -
  have l: "(\<exists>cmNodes. m_entities s e = Some cmNodes \<and> map_of cmNodes T = Some c) =
        (entityTable s e T = Some c)" for e T c
    by (simp add: entityTable_def split: option.splits)
  have r: "(\<exists>enNodes. m_componentTypes s T = Some enNodes \<and> enNodes e = Some c) =
        (typeIndex s T e = Some c)" for e T c
    by (simp add: typeIndex_def split: option.splits)
  have "(\<forall>e T. entityTable s e T = typeIndex s T e) =
        (\<forall>e T c. (entityTable s e T = Some c) = (typeIndex s T e = Some c))"
    by (metis option.exhaust)
  then show ?thesis by (simp add: tables_agree_def l r)
qed

text \<open>
  Claim C2. From a fresh manager every history of public calls (\<^verbatim>\<open>createEntity\<close>,
  \<^verbatim>\<open>destroyEntity\<close>, \<^verbatim>\<open>destroyAllEntities\<close>, \<^verbatim>\<open>attachComponent\<close>, \<^verbatim>\<open>detachComponent\<close>,
  \<^verbatim>\<open>getComponent\<close>, \<^verbatim>\<open>getEntityNodes\<close>, \<^verbatim>\<open>markForRemoval\<close>, \<^verbatim>\<open>purge\<close>) runs to its end,
  and in the state it reaches the entry \<^verbatim>\<open>m_entities[e][T]\<close> exists with pointer \<open>c\<close>
  exactly when the entry \<^verbatim>\<open>m_componentTypes[T][e]\<close> exists with the same pointer \<open>c\<close>:
  neither exists without the other. No call of the history throws.
\<close>

theorem dual_table_consistency:
  "(\<exists>rs s. run ops EntityManager_new = Some (rs, s))
   \<and> (\<forall>rs s. run ops EntityManager_new = Some (rs, s) \<longrightarrow>
        (\<forall>e T c. (\<exists>cmNodes. m_entities s e = Some cmNodes \<and> map_of cmNodes T = Some c) =
                 (\<exists>enNodes. m_componentTypes s T = Some enNodes \<and> enNodes e = Some c))
        \<and> (\<forall>err. Throw err \<notin> set rs))"
proof -
  from run_invariant [OF invariant_new, of ops]
  obtain rs s where r: "run ops EntityManager_new = Some (rs, s)" "invariant s"
    "\<forall>err. Throw err \<notin> set rs" by blast
  from r(2) have "tables_agree s" by (simp add: invariant_def)
  then have "\<forall>e T c. (\<exists>cmNodes. m_entities s e = Some cmNodes \<and> map_of cmNodes T = Some c) =
                 (\<exists>enNodes. m_componentTypes s T = Some enNodes \<and> enNodes e = Some c)"
    by (rule tables_agree_raw [THEN iffD1])
  with r(1,3) show ?thesis by simp
qed


lemmas eval_defs =
  createEntity_def EntityManager_new_def maxEntityId_def InvalidEntity_def
  findAvailable.simps map_insert_def prevEntityId_def destroyEntity_def attachComponent_def
  detachComponent_def getComponent_def getEntityNodes_def markForRemoval_def purge_def
  nodes_insert_def nodes_erase_def bool_outcome_def void_outcome_def destroyAllEntities_def

theorem dual_table_consistency_witness:
  "\<exists>s. run [CreateEntity, AttachComponent 0xFFFFFFFF (Some (Component 10 1)), CreateEntity,
            AttachComponent 0xFFFFFFFE (Some (Component 11 1)), GetEntityNodes 2,
            DetachComponent 1 0xFFFFFFFF] EntityManager_new =
         Some ([Id 0xFFFFFFFF, Bool True, Id 0xFFFFFFFE, Bool True, Nodes (Some Map.empty),
                Bool True], s)
       \<and> m_entities s 0xFFFFFFFE = Some [(1, Some (Component 11 1))]
       \<and> (\<forall>e T c. (\<exists>cmNodes. m_entities s e = Some cmNodes \<and> map_of cmNodes T = Some c) =
                   (\<exists>enNodes. m_componentTypes s T = Some enNodes \<and> enNodes e = Some c))"
proof -
  let ?ops = "[CreateEntity, AttachComponent 0xFFFFFFFF (Some (Component 10 1)), CreateEntity,
            AttachComponent 0xFFFFFFFE (Some (Component 11 1)), GetEntityNodes 2,
            DetachComponent 1 0xFFFFFFFF]"
  have "\<exists>s. run ?ops EntityManager_new =
         Some ([Id 0xFFFFFFFF, Bool True, Id 0xFFFFFFFE, Bool True, Nodes (Some Map.empty),
                Bool True], s)
       \<and> m_entities s 0xFFFFFFFE = Some [(1, Some (Component 11 1))]"
    by (simp add: eval_defs)
  with dual_table_consistency [of ?ops] show ?thesis by fastforce
qed

text \<open>
  Claim C1 says that \<^verbatim>\<open>purge()\<close> leaves the pending list empty. The code of \<^verbatim>\<open>purge\<close>
  only walks the list: create an entity, mark it, purge, and the id is still pending,
  though the entity is gone; a second \<^verbatim>\<open>purge\<close> walks the same list again.
\<close>

theorem purge_keeps_pending_list:
  "run [CreateEntity, MarkForRemoval 0xFFFFFFFF, Purge, Purge] EntityManager_new =
     Some ([Id 0xFFFFFFFF, Void, Void, Void],
           \<lparr>m_entities = Map.empty, m_entitiesMarkedForRemoval = [0xFFFFFFFF],
            m_componentTypes = Map.empty, m_nextEntityId = 0xFFFFFFFE\<rparr>)
   \<and> m_entitiesMarkedForRemoval (snd (purge s)) = m_entitiesMarkedForRemoval s"
  by (simp add: purge_fields) (simp add: eval_defs)

subsection \<open>Which ids are live\<close>

text \<open>Which ids are live after a call, in any state.\<close>

lemma createEntity_entities:
  "createEntity s = Some (entityId, s') \<Longrightarrow>
   m_entities s' = m_entities s \<or> m_entities s' = (m_entities s)(entityId \<mapsto> [])"
  by (auto simp: createEntity_def map_insert_def split: if_splits option.splits)

lemma destroyEntity_dom: "dom (m_entities (snd (destroyEntity e s))) \<subseteq> dom (m_entities s)"
proof (cases "m_entities s e")
  case None
  then show ?thesis by (simp add: destroyEntity_def)
next
  case (Some nodes)
  obtain r s1 where r: "destroyEntity_loop e nodes s = (r, s1)" by fastforce
  with destroyEntity_loop_frame [of e nodes s] Some show ?thesis
    by (cases r) (auto simp: destroyEntity_def)
qed

lemma purge_loop_dom: "dom (m_entities (snd (purge_loop ids s))) \<subseteq> dom (m_entities s)"
proof (induction ids arbitrary: s)
  case Nil
  then show ?case by simp
next
  case (Cons entityId rest)
  obtain r s1 where r: "destroyEntity entityId s = (r, s1)" by fastforce
  with destroyEntity_dom [of entityId s] Cons.IH [of s1] show ?case
    by (cases r) auto
qed

lemma call_not_live:
  assumes "m_entities s i = None" and "call opn s = Some (r, s')" and "r \<noteq> Id i"
  shows "m_entities s' i = None"
proof (cases opn)
  case CreateEntity
  with assms(2) obtain entityId where c: "createEntity s = Some (entityId, s')" "r = Id entityId"
    by auto
  from createEntity_entities [OF c(1)] c(2) assms(1,3) show ?thesis by auto
next
  case (DestroyEntity e)
  with assms(1,2) destroyEntity_dom [of e s] show ?thesis
    by (auto simp: bool_outcome_def)
next
  case DestroyAllEntities
  with assms(2) show ?thesis by (auto simp: destroyAllEntities_def)
next
  case (AttachComponent e p)
  with assms(1,2) attachComponent_fields [of e p s] show ?thesis
    by (auto simp: bool_outcome_def)
next
  case (DetachComponent T e)
  with assms(1,2) detachComponent_fields [of T e s] show ?thesis
    by (auto simp: bool_outcome_def)
next
  case (GetComponent T e)
  with assms(1,2) show ?thesis by auto
next
  case (GetEntityNodes T)
  with assms(1,2) show ?thesis by (auto simp: getEntityNodes_fields)
next
  case (MarkForRemoval e)
  with assms(1,2) show ?thesis by (auto simp: markForRemoval_def)
next
  case Purge
  with assms(1,2) purge_loop_dom [of "m_entitiesMarkedForRemoval s" s] show ?thesis
    by (auto simp: void_outcome_def purge_def)
qed

lemma run_not_live:
  "m_entities s i = None \<Longrightarrow> run ops s = Some (rs, s') \<Longrightarrow> Id i \<notin> set rs \<Longrightarrow>
   m_entities s' i = None"
proof (induction ops arbitrary: s rs)
  case Nil
  then show ?case by simp
next
  case (Cons opn rest)
  from Cons.prems(2) obtain r s1 rs1 where
    c: "call opn s = Some (r, s1)" and r: "run rest s1 = Some (rs1, s')" and rs: "rs = r # rs1"
    by (auto split: option.splits)
  from rs Cons.prems(3) have "r \<noteq> Id i" "Id i \<notin> set rs1" by auto
  from call_not_live [OF Cons.prems(1) c this(1)] r this(2) show ?case by (rule Cons.IH)
qed

lemma call_live:
  assumes "m_entities s i \<noteq> None" and "\<not> destroys opn" and "call opn s = Some (r, s')"
  shows "m_entities s' i \<noteq> None"
proof (cases opn)
  case CreateEntity
  with assms(3) obtain entityId where c: "createEntity s = Some (entityId, s')" by auto
  from createEntity_entities [OF c] assms(1) show ?thesis by auto
next
  case (AttachComponent e p)
  with assms(1,3) attachComponent_fields [of e p s] show ?thesis
    by (auto simp: bool_outcome_def)
next
  case (DetachComponent T e)
  with assms(1,3) detachComponent_fields [of T e s] show ?thesis
    by (auto simp: bool_outcome_def)
next
  case (GetComponent T e)
  with assms(1,3) show ?thesis by auto
next
  case (GetEntityNodes T)
  with assms(1,3) show ?thesis by (auto simp: getEntityNodes_fields)
next
  case (MarkForRemoval e)
  with assms(1,3) show ?thesis by (auto simp: markForRemoval_def)
qed (use assms(2) in simp_all)

lemma run_live:
  "m_entities s i \<noteq> None \<Longrightarrow> \<forall>opn \<in> set ops. \<not> destroys opn \<Longrightarrow> run ops s = Some (rs, s') \<Longrightarrow>
   m_entities s' i \<noteq> None"
proof (induction ops arbitrary: s rs)
  case Nil
  then show ?case by simp
next
  case (Cons opn rest)
  from Cons.prems(3) obtain r s1 rs1 where
    c: "call opn s = Some (r, s1)" and r: "run rest s1 = Some (rs1, s')"
    by (auto split: option.splits)
  from Cons.prems(2) have nd: "\<not> destroys opn" "\<forall>opn \<in> set rest. \<not> destroys opn" by simp_all
  from call_live [OF Cons.prems(1) nd(1) c] nd(2) r show ?case by (rule Cons.IH)
qed

subsection \<open>destroyEntity succeeds exactly once\<close>

text \<open>An entity that no call destroys stays live, in any state.\<close>

lemma destroyEntity_other:
  assumes "e \<noteq> i"
  shows "m_entities (snd (destroyEntity e s)) i = m_entities s i"
proof (cases "m_entities s e")
  case None
  then show ?thesis by (simp add: destroyEntity_def)
next
  case (Some nodes)
  obtain r s1 where r: "destroyEntity_loop e nodes s = (r, s1)" by fastforce
  with destroyEntity_loop_frame [of e nodes s] Some assms show ?thesis
    by (cases r) (simp_all add: destroyEntity_def)
qed

lemma purge_loop_other:
  "i \<notin> set ids \<Longrightarrow> m_entities (snd (purge_loop ids s)) i = m_entities s i"
proof (induction ids arbitrary: s)
  case Nil
  then show ?case by simp
next
  case (Cons entityId rest)
  then have ne: "entityId \<noteq> i" and rest: "i \<notin> set rest" by auto
  obtain r s1 where r: "destroyEntity entityId s = (r, s1)" by fastforce
  with destroyEntity_other [OF ne, of s] have "m_entities s1 i = m_entities s i" by simp
  with r Cons.IH [OF rest, of s1] show ?case by (cases r) simp_all
qed

lemma createEntity_pending:
  "createEntity s = Some (entityId, s') \<Longrightarrow>
   m_entitiesMarkedForRemoval s' = m_entitiesMarkedForRemoval s"
  by (auto simp: createEntity_def map_insert_def split: if_splits option.splits)

lemma call_survives:
  assumes live: "m_entities s i \<noteq> None"
    and ok: "opn \<noteq> DestroyEntity i" "opn \<noteq> DestroyAllEntities"
      "\<not> (opn = Purge \<and> i \<in> set (m_entitiesMarkedForRemoval s))"
    and c: "call opn s = Some (r, s')"
  shows "m_entities s' i \<noteq> None
     \<and> (i \<in> set (m_entitiesMarkedForRemoval s')) =
         (i \<in> set (m_entitiesMarkedForRemoval s) \<or> opn = MarkForRemoval i)"
proof (cases opn)
  case CreateEntity
  with c obtain entityId where ce: "createEntity s = Some (entityId, s')" by auto
  from createEntity_entities [OF ce] createEntity_pending [OF ce] live CreateEntity
  show ?thesis by auto
next
  case (DestroyEntity e)
  with ok(1) have "e \<noteq> i" by simp
  from destroyEntity_other [OF this, of s] destroyEntity_fields [of e s] DestroyEntity c live
  show ?thesis by (auto simp: bool_outcome_def)
next
  case DestroyAllEntities
  with ok(2) show ?thesis by simp
next
  case (AttachComponent e p)
  with c live attachComponent_fields [of e p s] show ?thesis
    by (auto simp: bool_outcome_def)
next
  case (DetachComponent T e)
  with c live detachComponent_fields [of T e s] show ?thesis
    by (auto simp: bool_outcome_def)
next
  case (GetComponent T e)
  with c live show ?thesis by auto
next
  case (GetEntityNodes T)
  with c live show ?thesis by (auto simp: getEntityNodes_fields)
next
  case (MarkForRemoval e)
  have "m_entities (markForRemoval e s) = m_entities s"
    "set (m_entitiesMarkedForRemoval (markForRemoval e s)) =
       (if m_entities s e \<noteq> None then insert e (set (m_entitiesMarkedForRemoval s))
        else set (m_entitiesMarkedForRemoval s))"
    by (simp_all add: markForRemoval_def)
  with MarkForRemoval c live show ?thesis by auto
next
  case Purge
  with ok(3) have "i \<notin> set (m_entitiesMarkedForRemoval s)" by simp
  from purge_loop_other [OF this, of s] purge_fields [of s] Purge c live
  show ?thesis by (auto simp: void_outcome_def purge_def)
qed

lemma run_survives:
  "m_entities s i \<noteq> None \<Longrightarrow> survives i (i \<in> set (m_entitiesMarkedForRemoval s)) ops \<Longrightarrow>
   run ops s = Some (rs, s') \<Longrightarrow> m_entities s' i \<noteq> None"
proof (induction ops arbitrary: s rs)
  case Nil
  then show ?case by simp
next
  case (Cons opn rest)
  from Cons.prems(3) obtain r s1 rs1 where
    c: "call opn s = Some (r, s1)" and r: "run rest s1 = Some (rs1, s')"
    by (auto split: option.splits)
  from Cons.prems(2) have ok: "opn \<noteq> DestroyEntity i" "opn \<noteq> DestroyAllEntities"
      "\<not> (opn = Purge \<and> i \<in> set (m_entitiesMarkedForRemoval s))"
    and rest: "survives i (i \<in> set (m_entitiesMarkedForRemoval s) \<or> opn = MarkForRemoval i) rest"
    by simp_all
  from call_survives [OF Cons.prems(1) ok c]
  have live1: "m_entities s1 i \<noteq> None"
    and m: "(i \<in> set (m_entitiesMarkedForRemoval s1)) =
         (i \<in> set (m_entitiesMarkedForRemoval s) \<or> opn = MarkForRemoval i)"
    by simp_all
  from rest m have "survives i (i \<in> set (m_entitiesMarkedForRemoval s1)) rest" by simp
  from Cons.IH [OF live1 this r] show ?case .
qed

text \<open>
  Claim C4. In every state that a history of public calls reaches from a fresh manager:
  \<^verbatim>\<open>destroyEntity(id)\<close> on a live id returns \<^verbatim>\<open>true\<close> and the very next
  \<^verbatim>\<open>destroyEntity(id)\<close> returns \<^verbatim>\<open>false\<close>; once an id is not live, \<^verbatim>\<open>destroyEntity(id)\<close>
  returns \<^verbatim>\<open>false\<close> after any further calls among which no \<^verbatim>\<open>createEntity\<close> returned that
  id; it returns \<^verbatim>\<open>false\<close> for an id that no \<^verbatim>\<open>createEntity\<close> of the history returned;
  and when \<^verbatim>\<open>createEntity\<close> returns an id (other than the invalid id), then after any
  further calls none of which destroys that id (other entities may be created and
  destroyed, other ids purged) \<^verbatim>\<open>destroyEntity(id)\<close> returns \<^verbatim>\<open>true\<close>, and the
  \<^verbatim>\<open>destroyEntity(id)\<close> right after it returns \<^verbatim>\<open>false\<close>.
\<close>

theorem destroyEntity_true_once:
  assumes "run history EntityManager_new = Some (rs, s)"
  shows "(m_entities s entityId \<noteq> None \<longrightarrow>
            fst (destroyEntity entityId s) = Inr True
            \<and> fst (destroyEntity entityId (snd (destroyEntity entityId s))) = Inr False)
       \<and> (\<forall>ops rs' s'. m_entities s entityId = None \<and> run ops s = Some (rs', s')
             \<and> Id entityId \<notin> set rs' \<longrightarrow> destroyEntity entityId s' = (Inr False, s'))
       \<and> (Id entityId \<notin> set rs \<longrightarrow> destroyEntity entityId s = (Inr False, s))
       \<and> (\<forall>s1 ops rs' s'. createEntity s = Some (entityId, s1) \<and> entityId \<noteq> InvalidEntity
             \<and> run ops s1 = Some (rs', s')
             \<and> survives entityId (entityId \<in> set (m_entitiesMarkedForRemoval s1)) ops \<longrightarrow>
             fst (destroyEntity entityId s') = Inr True
             \<and> fst (destroyEntity entityId (snd (destroyEntity entityId s'))) = Inr False)"
proof -
  from run_invariant [OF invariant_new, of history] assms
  have inv: "invariant s" by auto
  have once: "fst (destroyEntity entityId t) = Inr True
            \<and> fst (destroyEntity entityId (snd (destroyEntity entityId t))) = Inr False"
    if "invariant t" and live: "m_entities t entityId \<noteq> None" for t
  proof -
    from that have true: "fst (destroyEntity entityId t) = Inr True"
      by (simp add: invariant_def destroyEntity_result)
    from destroyEntity_True_entities [OF true]
    have "m_entities (snd (destroyEntity entityId t)) entityId = None" by simp
    then have "fst (destroyEntity entityId (snd (destroyEntity entityId t))) = Inr False"
      by (simp add: destroyEntity_unknown)
    with true show ?thesis by simp
  qed
  have c1: "m_entities s entityId \<noteq> None \<longrightarrow>
            fst (destroyEntity entityId s) = Inr True
            \<and> fst (destroyEntity entityId (snd (destroyEntity entityId s))) = Inr False"
    using once [OF inv] by blast
  have c2: "\<forall>ops rs' s'. m_entities s entityId = None \<and> run ops s = Some (rs', s')
             \<and> Id entityId \<notin> set rs' \<longrightarrow> destroyEntity entityId s' = (Inr False, s')"
  proof (intro allI impI)
    fix ops rs' s'
    assume "m_entities s entityId = None \<and> run ops s = Some (rs', s') \<and> Id entityId \<notin> set rs'"
    then have "m_entities s' entityId = None" by (blast intro: run_not_live)
    then show "destroyEntity entityId s' = (Inr False, s')" by (rule destroyEntity_unknown)
  qed
  have c3: "Id entityId \<notin> set rs \<longrightarrow> destroyEntity entityId s = (Inr False, s)"
  proof
    assume "Id entityId \<notin> set rs"
    with assms have "m_entities s entityId = None"
      by (intro run_not_live [of EntityManager_new entityId history rs s])
        (simp_all add: EntityManager_new_def)
    then show "destroyEntity entityId s = (Inr False, s)" by (rule destroyEntity_unknown)
  qed
  have c4: "\<forall>s1 ops rs' s'. createEntity s = Some (entityId, s1) \<and> entityId \<noteq> InvalidEntity
             \<and> run ops s1 = Some (rs', s')
             \<and> survives entityId (entityId \<in> set (m_entitiesMarkedForRemoval s1)) ops \<longrightarrow>
             fst (destroyEntity entityId s') = Inr True
             \<and> fst (destroyEntity entityId (snd (destroyEntity entityId s'))) = Inr False"
  proof (intro allI impI)
    fix s1 ops rs' s'
    assume a: "createEntity s = Some (entityId, s1) \<and> entityId \<noteq> InvalidEntity
             \<and> run ops s1 = Some (rs', s')
             \<and> survives entityId (entityId \<in> set (m_entitiesMarkedForRemoval s1)) ops"
    from inv have cv: "cursor_valid s" by (simp add: invariant_def)
    from cv a have live1: "m_entities s1 entityId \<noteq> None"
      by (cases rule: createEntity_cases) auto
    from createEntity_invariant [OF inv] a have inv1: "invariant s1" by auto
    from run_invariant [OF inv1, of ops] a have inv': "invariant s'" by auto
    from a have "survives entityId (entityId \<in> set (m_entitiesMarkedForRemoval s1)) ops"
      "run ops s1 = Some (rs', s')" by simp_all
    from run_survives [OF live1 this] have "m_entities s' entityId \<noteq> None" .
    with inv' show "fst (destroyEntity entityId s') = Inr True
             \<and> fst (destroyEntity entityId (snd (destroyEntity entityId s'))) = Inr False"
      by (rule once)
  qed
  from c1 c2 c3 c4 show ?thesis by blast
qed

theorem destroyEntity_true_once_witness:
  "\<exists>s s1 s'.
       run [CreateEntity, AttachComponent 0xFFFFFFFF (Some (Component 10 1)), CreateEntity,
            DestroyEntity 0xFFFFFFFE] EntityManager_new =
         Some ([Id 0xFFFFFFFF, Bool True, Id 0xFFFFFFFE, Bool True], s)
     \<and> fst (destroyEntity 0xFFFFFFFF s) = Inr True
     \<and> fst (destroyEntity 0xFFFFFFFF (snd (destroyEntity 0xFFFFFFFF s))) = Inr False
     \<and> destroyEntity 0xFFFFFFFE s = (Inr False, s)
     \<and> destroyEntity 7 s = (Inr False, s)
     \<and> createEntity s = Some (0xFFFFFFFD, s1)
     \<and> run [CreateEntity, AttachComponent 0xFFFFFFFD (Some (Component 11 1)),
             DestroyEntity 0xFFFFFFFC, MarkForRemoval 0xFFFFFFFF, Purge] s1 =
         Some ([Id 0xFFFFFFFC, Bool True, Bool True, Void, Void], s')
     \<and> survives 0xFFFFFFFD (0xFFFFFFFD \<in> set (m_entitiesMarkedForRemoval s1))
          [CreateEntity, AttachComponent 0xFFFFFFFD (Some (Component 11 1)),
             DestroyEntity 0xFFFFFFFC, MarkForRemoval 0xFFFFFFFF, Purge]
     \<and> m_entities s' 0xFFFFFFFF = None
     \<and> fst (destroyEntity 0xFFFFFFFD s') = Inr True
     \<and> fst (destroyEntity 0xFFFFFFFD (snd (destroyEntity 0xFFFFFFFD s'))) = Inr False"
proof -
  let ?h = "[CreateEntity, AttachComponent 0xFFFFFFFF (Some (Component 10 1)), CreateEntity,
            DestroyEntity 0xFFFFFFFE]"
  let ?ops = "[CreateEntity, AttachComponent 0xFFFFFFFD (Some (Component 11 1)),
             DestroyEntity 0xFFFFFFFC, MarkForRemoval 0xFFFFFFFF, Purge]"
  obtain s where s: "run ?h EntityManager_new =
      Some ([Id 0xFFFFFFFF, Bool True, Id 0xFFFFFFFE, Bool True], s)"
    and m: "m_entities s 0xFFFFFFFF \<noteq> None" "m_entities s 0xFFFFFFFE = None"
    and n: "\<exists>s1 s'. createEntity s = Some (0xFFFFFFFD, s1)
        \<and> run ?ops s1 = Some ([Id 0xFFFFFFFC, Bool True, Bool True, Void, Void], s')
        \<and> survives 0xFFFFFFFD (0xFFFFFFFD \<in> set (m_entitiesMarkedForRemoval s1)) ?ops
        \<and> m_entities s' 0xFFFFFFFF = None"
    by (simp add: eval_defs)
  from n obtain s1 s' where c: "createEntity s = Some (0xFFFFFFFD, s1)"
    and r: "run ?ops s1 = Some ([Id 0xFFFFFFFC, Bool True, Bool True, Void, Void], s')"
    and v: "survives 0xFFFFFFFD (0xFFFFFFFD \<in> set (m_entitiesMarkedForRemoval s1)) ?ops"
    and g: "m_entities s' 0xFFFFFFFF = None"
    by blast
  from destroyEntity_true_once [OF s, of "0xFFFFFFFF"] m(1)
  have a: "fst (destroyEntity 0xFFFFFFFF s) = Inr True"
    "fst (destroyEntity 0xFFFFFFFF (snd (destroyEntity 0xFFFFFFFF s))) = Inr False"
    by simp_all
  from destroyEntity_true_once [OF s, of "0xFFFFFFFE"] m(2)
  have b: "destroyEntity 0xFFFFFFFE s = (Inr False, s)"
    by (elim conjE allE [of _ "[]"]) simp
  from destroyEntity_true_once [OF s, of 7]
  have d: "destroyEntity 7 s = (Inr False, s)" by simp
  have "(0xFFFFFFFD :: EntityId) \<noteq> InvalidEntity" by (simp add: InvalidEntity_def)
  with destroyEntity_true_once [OF s, of "0xFFFFFFFD"] c r v
  have e: "fst (destroyEntity 0xFFFFFFFD s') = Inr True
     \<and> fst (destroyEntity 0xFFFFFFFD (snd (destroyEntity 0xFFFFFFFD s'))) = Inr False"
    by blast
  from s a b d c r v g e show ?thesis by blast
qed

subsection \<open>Ids returned by createEntity\<close>

text \<open>One non-destroying call on a consistent state: \<^verbatim>\<open>createEntity\<close> either finds every
  id live or adds the id it returns, any other call leaves the set of live ids alone.\<close>

lemma call_create:
  assumes "invariant s"
  shows "\<exists>i s'. call CreateEntity s = Some (Id i, s') \<and> invariant s'
     \<and> (i = 0 \<and> card (dom (m_entities s)) = 4294967295
        \<or> i \<noteq> 0 \<and> i \<notin> dom (m_entities s) \<and> dom (m_entities s') = insert i (dom (m_entities s)))"
proof -
  from assms have cv: "cursor_valid s" by (simp add: invariant_def)
  from createEntity_invariant [OF assms]
  obtain i s' where c: "createEntity s = Some (i, s')" "invariant s'" by blast
  from cv have "i = 0 \<and> card (dom (m_entities s)) = 4294967295
        \<or> i \<noteq> 0 \<and> i \<notin> dom (m_entities s) \<and> dom (m_entities s') = insert i (dom (m_entities s))"
  proof (cases rule: createEntity_cases)
    case exhausted
    with c size_is_max_iff [OF cv] show ?thesis
      by (simp add: InvalidEntity_def maxEntityId_def)
  next
    case (fresh entityId)
    with c show ?thesis by auto
  qed
  with c show ?thesis by simp
qed

lemma call_other:
  assumes "invariant s" and "\<not> destroys opn" and "opn \<noteq> CreateEntity"
  shows "\<exists>r s'. call opn s = Some (r, s') \<and> invariant s' \<and> returned_ids [r] = []
     \<and> dom (m_entities s') = dom (m_entities s)"
proof -
  from call_invariant [OF assms(1), of opn]
  obtain r s' where c: "call opn s = Some (r, s')" "invariant s'" by blast
  have "returned_ids [r] = [] \<and> dom (m_entities s') = dom (m_entities s)"
  proof (cases opn)
    case (AttachComponent e p)
    with c(1) attachComponent_fields [of e p s] show ?thesis
      by (auto simp: bool_outcome_def split: sum.splits)
  next
    case (DetachComponent T e)
    with c(1) detachComponent_fields [of T e s] show ?thesis
      by (auto simp: bool_outcome_def split: sum.splits)
  next
    case (GetComponent T e)
    with c(1) show ?thesis by auto
  next
    case (GetEntityNodes T)
    with c(1) show ?thesis by (auto simp: getEntityNodes_fields)
  next
    case (MarkForRemoval e)
    have "m_entities (markForRemoval e s) = m_entities s" by (simp add: markForRemoval_def)
    with MarkForRemoval c(1) show ?thesis by auto
  qed (use assms(2,3) in simp_all)
  with c show ?thesis by simp
qed

lemma run_creates_distinct:
  "invariant s \<Longrightarrow> \<forall>opn \<in> set ops. \<not> destroys opn \<Longrightarrow>
   card (dom (m_entities s)) + count_list ops CreateEntity \<le> 4294967295 \<Longrightarrow>
   \<exists>rs s'. run ops s = Some (rs, s')
     \<and> length (returned_ids rs) = count_list ops CreateEntity
     \<and> distinct (returned_ids rs) \<and> 0 \<notin> set (returned_ids rs)
     \<and> set (returned_ids rs) \<inter> dom (m_entities s) = {}"
proof (induction ops arbitrary: s)
  case Nil
  then show ?case by simp
next
  case (Cons opn rest)
  from Cons.prems(2) have nd: "\<not> destroys opn" "\<forall>opn \<in> set rest. \<not> destroys opn" by simp_all
  have fin: "finite (dom (m_entities s))" by simp
  show ?case
  proof (cases "opn = CreateEntity")
    case True
    with Cons.prems(3) have budget: "card (dom (m_entities s)) + 1 + count_list rest CreateEntity \<le> 4294967295"
      by simp
    from call_create [OF Cons.prems(1)] budget
    obtain i s1 where c: "call CreateEntity s = Some (Id i, s1)" "invariant s1"
      "i \<noteq> 0" "i \<notin> dom (m_entities s)" "dom (m_entities s1) = insert i (dom (m_entities s))"
      by auto
    from c(4,5) fin have "card (dom (m_entities s1)) = card (dom (m_entities s)) + 1" by simp
    with budget have "card (dom (m_entities s1)) + count_list rest CreateEntity \<le> 4294967295"
      by simp
    from Cons.IH [OF c(2) nd(2) this]
    obtain rs s' where r: "run rest s1 = Some (rs, s')"
      "length (returned_ids rs) = count_list rest CreateEntity"
      "distinct (returned_ids rs)" "0 \<notin> set (returned_ids rs)"
      "set (returned_ids rs) \<inter> dom (m_entities s1) = {}"
      by blast
    from r(5) c(5) have "i \<notin> set (returned_ids rs)"
      "set (returned_ids rs) \<inter> dom (m_entities s) = {}" by auto
    with True c r show ?thesis by auto
  next
    case False
    with Cons.prems(3) have budget: "card (dom (m_entities s)) + count_list rest CreateEntity \<le> 4294967295"
      by simp
    from call_other [OF Cons.prems(1) nd(1) False]
    obtain r s1 where c: "call opn s = Some (r, s1)" "invariant s1" "returned_ids [r] = []"
      "dom (m_entities s1) = dom (m_entities s)"
      by blast
    from c(4) budget have "card (dom (m_entities s1)) + count_list rest CreateEntity \<le> 4294967295"
      by simp
    from Cons.IH [OF c(2) nd(2) this]
    obtain rs s' where r: "run rest s1 = Some (rs, s')"
      "length (returned_ids rs) = count_list rest CreateEntity"
      "distinct (returned_ids rs)" "0 \<notin> set (returned_ids rs)"
      "set (returned_ids rs) \<inter> dom (m_entities s1) = {}"
      by blast
    have "returned_ids (r # rs) = returned_ids rs" using c(3) by (cases r) simp_all
    with False c r show ?thesis by auto
  qed
qed

text \<open>
  Claim C3. From any state that a history reaches from a fresh manager, take any further
  sequence of calls with no \<^verbatim>\<open>destroyEntity\<close>, \<^verbatim>\<open>destroyAllEntities\<close> or \<^verbatim>\<open>purge\<close> among
  them, whose \<^verbatim>\<open>createEntity\<close> calls do not exhaust the id space (the live entities plus
  the new ones are at most \<open>2\<^sup>3\<^sup>2 - 1\<close>). Then the sequence runs to its end, every
  \<^verbatim>\<open>createEntity\<close> of it returns an id, and these ids are pairwise distinct and none is
  the invalid id 0.
\<close>

theorem createEntity_ids_distinct:
  assumes "run history EntityManager_new = Some (rs0, s)"
    and "\<forall>opn \<in> set ops. \<not> destroys opn"
    and "card (dom (m_entities s)) + count_list ops CreateEntity \<le> 4294967295"
  shows "\<exists>rs s'. run ops s = Some (rs, s')
     \<and> length (returned_ids rs) = count_list ops CreateEntity
     \<and> distinct (returned_ids rs) \<and> InvalidEntity \<notin> set (returned_ids rs)"
proof -
  from run_invariant [OF invariant_new, of history] assms(1)
  have "invariant s" by auto
  from run_creates_distinct [OF this assms(2,3)] show ?thesis
    by (auto simp: InvalidEntity_def)
qed

theorem createEntity_ids_distinct_witness:
  "\<exists>s s'. run [CreateEntity, DestroyEntity 0xFFFFFFFF, CreateEntity] EntityManager_new =
         Some ([Id 0xFFFFFFFF, Bool True, Id 0xFFFFFFFE], s)
     \<and> card (dom (m_entities s)) = 1
     \<and> run [CreateEntity, AttachComponent 0xFFFFFFFD (Some (Component 10 1)), CreateEntity,
             MarkForRemoval 0xFFFFFFFE, CreateEntity] s =
         Some ([Id 0xFFFFFFFD, Bool True, Id 0xFFFFFFFC, Void, Id 0xFFFFFFFB], s')
     \<and> distinct (returned_ids [Id 0xFFFFFFFD, Bool True, Id 0xFFFFFFFC, Void, Id 0xFFFFFFFB])
     \<and> InvalidEntity \<notin> set (returned_ids [Id 0xFFFFFFFD, Bool True, Id 0xFFFFFFFC, Void, Id 0xFFFFFFFB])"
proof -
  let ?h = "[CreateEntity, DestroyEntity 0xFFFFFFFF, CreateEntity]"
  let ?ops = "[CreateEntity, AttachComponent 0xFFFFFFFD (Some (Component 10 1)), CreateEntity,
             MarkForRemoval 0xFFFFFFFE, CreateEntity]"
  obtain s where s: "run ?h EntityManager_new = Some ([Id 0xFFFFFFFF, Bool True, Id 0xFFFFFFFE], s)"
    and c: "card (dom (m_entities s)) = 1"
    and r: "\<exists>s'. run ?ops s = Some ([Id 0xFFFFFFFD, Bool True, Id 0xFFFFFFFC, Void, Id 0xFFFFFFFB], s')"
    by (simp add: eval_defs)
  have nd: "\<forall>opn \<in> set ?ops. \<not> destroys opn" by simp
  have b: "card (dom (m_entities s)) + count_list ?ops CreateEntity \<le> 4294967295"
    using c by simp
  from createEntity_ids_distinct [OF s nd b] r c s show ?thesis by auto
qed

subsection \<open>The allocation of ids\<close>

lemma run_cursor_valid:
  "run history EntityManager_new = Some (rs, s) \<Longrightarrow>
   m_nextEntityId s \<noteq> InvalidEntity \<and> m_entities s InvalidEntity = None"
  using run_invariant [OF invariant_new, of history]
  by (auto simp: invariant_def cursor_valid_def)

text \<open>
  Claim C8. In every state whose cursor is not 0 and in which the id 0 is not live (every
  state a history reaches from a fresh manager is such a state, by \<open>run_cursor_valid\<close>),
  \<^verbatim>\<open>createEntity\<close> returns. The cursor of a fresh manager is the maximum \<open>2\<^sup>3\<^sup>2 - 1\<close>. One
  step of the scan takes a non-zero id to the id below it, and 1 to the maximum. If every
  id from 1 to the maximum is live, the call returns the invalid id 0 and changes nothing.
  Otherwise it returns the first id that is not live among the cursor, its predecessor,
  and so on: every id visited before it is live, no id visited is 0, the returned id becomes
  live with no components, and the new cursor is the predecessor of the returned id.
\<close>

theorem createEntity_scans_down:
  assumes "m_nextEntityId s \<noteq> InvalidEntity" and "m_entities s InvalidEntity = None"
  shows "m_nextEntityId EntityManager_new = 0xFFFFFFFF
     \<and> (\<forall>i. i \<noteq> 0 \<longrightarrow> unat (prevEntityId i) = (if unat i = 1 then 4294967295 else unat i - 1))
     \<and> ((\<forall>i. i \<noteq> InvalidEntity \<longrightarrow> m_entities s i \<noteq> None) \<longrightarrow>
          createEntity s = Some (InvalidEntity, s))
     \<and> ((\<exists>i. i \<noteq> InvalidEntity \<and> m_entities s i = None) \<longrightarrow>
          (\<exists>k. createEntity s =
                 Some ((prevEntityId ^^ k) (m_nextEntityId s),
                       s\<lparr>m_entities := (m_entities s)((prevEntityId ^^ k) (m_nextEntityId s) \<mapsto> []),
                         m_nextEntityId := prevEntityId ((prevEntityId ^^ k) (m_nextEntityId s))\<rparr>)
             \<and> m_entities s ((prevEntityId ^^ k) (m_nextEntityId s)) = None
             \<and> (\<forall>j<k. m_entities s ((prevEntityId ^^ j) (m_nextEntityId s)) \<noteq> None)
             \<and> (\<forall>j\<le>k. (prevEntityId ^^ j) (m_nextEntityId s) \<noteq> InvalidEntity)))"
proof (intro conjI allI impI)
  from assms have cv: "cursor_valid s" by (simp add: cursor_valid_def)
  show "m_nextEntityId EntityManager_new = 0xFFFFFFFF"
    by (simp add: EntityManager_new_def maxEntityId_def)
  show "unat (prevEntityId i) = (if unat i = 1 then 4294967295 else unat i - 1)" if "i \<noteq> 0" for i
    using that by (rule unat_prevEntityId)
  show "createEntity s = Some (InvalidEntity, s)"
    if "\<forall>i. i \<noteq> InvalidEntity \<longrightarrow> m_entities s i \<noteq> None"
    using cv that by (intro createEntity_exhausted) (simp_all add: InvalidEntity_def)
  show "\<exists>k. createEntity s =
                 Some ((prevEntityId ^^ k) (m_nextEntityId s),
                       s\<lparr>m_entities := (m_entities s)((prevEntityId ^^ k) (m_nextEntityId s) \<mapsto> []),
                         m_nextEntityId := prevEntityId ((prevEntityId ^^ k) (m_nextEntityId s))\<rparr>)
             \<and> m_entities s ((prevEntityId ^^ k) (m_nextEntityId s)) = None
             \<and> (\<forall>j<k. m_entities s ((prevEntityId ^^ j) (m_nextEntityId s)) \<noteq> None)
             \<and> (\<forall>j\<le>k. (prevEntityId ^^ j) (m_nextEntityId s) \<noteq> InvalidEntity)"
    if "\<exists>i. i \<noteq> InvalidEntity \<and> m_entities s i = None"
  proof -
    from that obtain t where "m_entities s t = None" "t \<noteq> 0" by (auto simp: InvalidEntity_def)
    from createEntity_fresh [OF cv this] show ?thesis by (simp add: InvalidEntity_def)
  qed
qed


theorem createEntity_scans_down_witness:
  "m_nextEntityId
     \<lparr>m_entities = [1 \<mapsto> [], 0xFFFFFFFF \<mapsto> []], m_entitiesMarkedForRemoval = [],
      m_componentTypes = Map.empty, m_nextEntityId = 1\<rparr> \<noteq> InvalidEntity
   \<and> m_entities
     \<lparr>m_entities = [1 \<mapsto> [], 0xFFFFFFFF \<mapsto> []], m_entitiesMarkedForRemoval = [],
      m_componentTypes = Map.empty, m_nextEntityId = 1\<rparr> InvalidEntity = None
   \<and> createEntity
     \<lparr>m_entities = [1 \<mapsto> [], 0xFFFFFFFF \<mapsto> []], m_entitiesMarkedForRemoval = [],
      m_componentTypes = Map.empty, m_nextEntityId = 1\<rparr> =
     Some (0xFFFFFFFE,
       \<lparr>m_entities = [1 \<mapsto> [], 0xFFFFFFFF \<mapsto> [], 0xFFFFFFFE \<mapsto> []],
        m_entitiesMarkedForRemoval = [], m_componentTypes = Map.empty,
        m_nextEntityId = 0xFFFFFFFD\<rparr>)
   \<and> (prevEntityId ^^ 2) 1 = 0xFFFFFFFE
   \<and> unat (prevEntityId 1) = 4294967295"
proof -
  let ?s = "\<lparr>m_entities = [1 \<mapsto> [], 0xFFFFFFFF \<mapsto> []], m_entitiesMarkedForRemoval = [],
      m_componentTypes = Map.empty, m_nextEntityId = 1::EntityId\<rparr>"
  have h1: "m_nextEntityId ?s \<noteq> InvalidEntity" by (simp add: InvalidEntity_def)
  have h2: "m_entities ?s InvalidEntity = None" by (simp add: InvalidEntity_def)
  have "(prevEntityId ^^ 2) 1 = prevEntityId (prevEntityId 1)"
    by (simp only: numeral_2_eq_2 funpow.simps o_apply id_apply)
  then have p: "(prevEntityId ^^ 2) 1 = 0xFFFFFFFE"
    by (simp add: prevEntityId_def maxEntityId_def)
  have free: "\<exists>i. i \<noteq> InvalidEntity \<and> m_entities ?s i = None"
    by (intro exI [of _ 2]) (simp add: InvalidEntity_def)
  note t = createEntity_scans_down [OF h1 h2]
  from t have u: "unat (prevEntityId 1) = 4294967295" by simp
  from t free obtain k where
    k: "createEntity ?s =
          Some ((prevEntityId ^^ k) (m_nextEntityId ?s),
                ?s\<lparr>m_entities := (m_entities ?s)((prevEntityId ^^ k) (m_nextEntityId ?s) \<mapsto> []),
                   m_nextEntityId := prevEntityId ((prevEntityId ^^ k) (m_nextEntityId ?s))\<rparr>)"
      "m_entities ?s ((prevEntityId ^^ k) (m_nextEntityId ?s)) = None"
      "\<forall>j<k. m_entities ?s ((prevEntityId ^^ j) (m_nextEntityId ?s)) \<noteq> None"
    by blast
  have "k = 2"
  proof (rule ccontr)
    assume "k \<noteq> 2"
    then consider "k = 0" | "k = 1" | "2 < k" by linarith
    then show False
    proof cases
      case 1
      with k(2) show False by simp
    next
      case 2
      with k(2) show False by (simp add: prevEntityId_def maxEntityId_def)
    next
      case 3
      with k(3) have "m_entities ?s ((prevEntityId ^^ 2) (m_nextEntityId ?s)) \<noteq> None" by blast
      with p show False by simp
    qed
  qed
  with k(1) p have "createEntity ?s =
     Some (0xFFFFFFFE,
       \<lparr>m_entities = [1 \<mapsto> [], 0xFFFFFFFF \<mapsto> [], 0xFFFFFFFE \<mapsto> []],
        m_entitiesMarkedForRemoval = [], m_componentTypes = Map.empty,
        m_nextEntityId = 0xFFFFFFFD\<rparr>)"
    by (simp add: prevEntityId_def)
  with h1 h2 p u show ?thesis by simp
qed

subsection \<open>Observing the tables after attach, detach and destroy\<close>

lemma run_tables_agree:
  "run history EntityManager_new = Some (rs, s) \<Longrightarrow> tables_agree s"
  using run_invariant [OF invariant_new, of history] by (auto simp: invariant_def)

lemma getComponent_entityTable:
  "getComponent T e s = (case entityTable s e T of None \<Rightarrow> None | Some p \<Rightarrow> p)"
  by (simp add: getComponent_def entityTable_def split: option.splits)

text \<open>
  Claim C6. In every state that a history reaches from a fresh manager, if
  \<^verbatim>\<open>attachComponent(id, c)\<close> returns \<^verbatim>\<open>true\<close> for a component \<open>c\<close> of kind \<open>typeid c\<close>,
  then right after it \<^verbatim>\<open>getComponent\<close> for that kind and id returns \<open>c\<close>, and
  \<^verbatim>\<open>getEntityNodes\<close> for that kind returns a map with the entry \<open>id \<mapsto> c\<close>.
\<close>

theorem attach_then_get:
  assumes "run history EntityManager_new = Some (rs, s)"
    and "fst (attachComponent entityId (Some c) s) = Inr True"
  shows "getComponent (typeid c) entityId (snd (attachComponent entityId (Some c) s)) = Some c
     \<and> (\<exists>enNodes.
          fst (getEntityNodes (typeid c) (snd (attachComponent entityId (Some c) s))) = Some enNodes
          \<and> enNodes entityId = Some (Some c))"
proof -
  let ?s' = "snd (attachComponent entityId (Some c) s)"
  from assms(1) have agree: "tables_agree s" by (rule run_tables_agree)
  from attachComponent_True_pre [OF assms(2)]
  have "entityTable s entityId (typeid c) = None" by simp
  with agree have "typeIndex s (typeid c) entityId = None" by (simp add: tables_agree_def)
  with attachComponent_True_typeIndex [OF assms(2), of "typeid c" entityId]
  have ti: "typeIndex ?s' (typeid c) entityId = Some (Some c)" by simp
  from attachComponent_True_entityTable [OF assms(2), of entityId "typeid c"]
  have "entityTable ?s' entityId (typeid c) = Some (Some c)" by simp
  then have "getComponent (typeid c) entityId ?s' = Some c"
    by (simp add: getComponent_entityTable)
  moreover from getEntityNodes_result [of "typeid c" ?s'] ti
  have "\<exists>enNodes. fst (getEntityNodes (typeid c) ?s') = Some enNodes
          \<and> enNodes entityId = Some (Some c)" by auto
  ultimately show ?thesis by simp
qed

theorem attach_then_get_witness:
  "\<exists>s. run [CreateEntity, CreateEntity, AttachComponent 0xFFFFFFFE (Some (Component 10 1))]
          EntityManager_new = Some ([Id 0xFFFFFFFF, Id 0xFFFFFFFE, Bool True], s)
     \<and> fst (attachComponent 0xFFFFFFFF (Some (Component 11 1)) s) = Inr True
     \<and> getComponent 1 0xFFFFFFFF (snd (attachComponent 0xFFFFFFFF (Some (Component 11 1)) s)) =
         Some (Component 11 1)
     \<and> (\<exists>enNodes.
          fst (getEntityNodes 1 (snd (attachComponent 0xFFFFFFFF (Some (Component 11 1)) s))) =
            Some enNodes
          \<and> enNodes 0xFFFFFFFF = Some (Some (Component 11 1))
          \<and> enNodes 0xFFFFFFFE = Some (Some (Component 10 1)))"
proof -
  obtain s where s: "run [CreateEntity, CreateEntity, AttachComponent 0xFFFFFFFE (Some (Component 10 1))]
          EntityManager_new = Some ([Id 0xFFFFFFFF, Id 0xFFFFFFFE, Bool True], s)"
    and a: "fst (attachComponent 0xFFFFFFFF (Some (Component 11 1)) s) = Inr True"
    and o: "the (fst (getEntityNodes 1 (snd (attachComponent 0xFFFFFFFF (Some (Component 11 1)) s))))
          0xFFFFFFFE = Some (Some (Component 10 1))"
    by (simp add: eval_defs)
  from attach_then_get [OF s a] o s a show ?thesis by auto
qed

text \<open>
  Claim C7. In every state that a history reaches from a fresh manager: right after a
  \<^verbatim>\<open>detachComponent<T>(id)\<close> that returns \<^verbatim>\<open>true\<close>, and right after a \<^verbatim>\<open>destroyEntity(id)\<close>
  that returns \<^verbatim>\<open>true\<close> (then for every kind \<open>T\<close>), \<^verbatim>\<open>getComponent<T>(id)\<close> returns the null
  pointer and the map that \<^verbatim>\<open>getEntityNodes<T>()\<close> returns has no entry for the id.
\<close>

theorem detach_or_destroy_then_get:
  assumes "run history EntityManager_new = Some (rs, s)"
  shows "(fst (detachComponent T entityId s) = Inr True \<longrightarrow>
            getComponent T entityId (snd (detachComponent T entityId s)) = None
            \<and> (\<exists>enNodes. fst (getEntityNodes T (snd (detachComponent T entityId s))) = Some enNodes
                 \<and> enNodes entityId = None))
       \<and> (fst (destroyEntity entityId s) = Inr True \<longrightarrow>
            getComponent T entityId (snd (destroyEntity entityId s)) = None
            \<and> (\<exists>enNodes. fst (getEntityNodes T (snd (destroyEntity entityId s))) = Some enNodes
                 \<and> enNodes entityId = None))"
proof (intro conjI impI)
  from assms have agree: "tables_agree s" by (rule run_tables_agree)
  {
    assume t: "fst (detachComponent T entityId s) = Inr True"
    let ?s' = "snd (detachComponent T entityId s)"
    from detachComponent_True_entityTable [OF t, of entityId T]
    show "getComponent T entityId ?s' = None" by (simp add: getComponent_entityTable)
    from detachComponent_True_typeIndex [OF t, of T entityId] getEntityNodes_result [of T ?s']
    show "\<exists>enNodes. fst (getEntityNodes T ?s') = Some enNodes \<and> enNodes entityId = None"
      by auto
  }
  {
    assume t: "fst (destroyEntity entityId s) = Inr True"
    let ?s' = "snd (destroyEntity entityId s)"
    from destroyEntity_True_entityTable [OF t, of entityId T]
    show "getComponent T entityId ?s' = None" by (simp add: getComponent_entityTable)
    from destroyEntity_True_typeIndex [OF t agree, of T entityId] getEntityNodes_result [of T ?s']
    show "\<exists>enNodes. fst (getEntityNodes T ?s') = Some enNodes \<and> enNodes entityId = None"
      by auto
  }
qed

theorem detach_or_destroy_then_get_witness:
  "\<exists>s. run [CreateEntity, AttachComponent 0xFFFFFFFF (Some (Component 10 1)),
            AttachComponent 0xFFFFFFFF (Some (Component 11 2))] EntityManager_new =
          Some ([Id 0xFFFFFFFF, Bool True, Bool True], s)
     \<and> getComponent 1 0xFFFFFFFF s = Some (Component 10 1)
     \<and> fst (detachComponent 1 0xFFFFFFFF s) = Inr True
     \<and> getComponent 1 0xFFFFFFFF (snd (detachComponent 1 0xFFFFFFFF s)) = None
     \<and> (\<exists>enNodes. fst (getEntityNodes 1 (snd (detachComponent 1 0xFFFFFFFF s))) = Some enNodes
           \<and> enNodes 0xFFFFFFFF = None)
     \<and> fst (destroyEntity 0xFFFFFFFF s) = Inr True
     \<and> getComponent 2 0xFFFFFFFF (snd (destroyEntity 0xFFFFFFFF s)) = None
     \<and> (\<exists>enNodes. fst (getEntityNodes 2 (snd (destroyEntity 0xFFFFFFFF s))) = Some enNodes
           \<and> enNodes 0xFFFFFFFF = None)"
proof -
  obtain s where s: "run [CreateEntity, AttachComponent 0xFFFFFFFF (Some (Component 10 1)),
            AttachComponent 0xFFFFFFFF (Some (Component 11 2))] EntityManager_new =
          Some ([Id 0xFFFFFFFF, Bool True, Bool True], s)"
    and g: "getComponent 1 0xFFFFFFFF s = Some (Component 10 1)"
    and d: "fst (detachComponent 1 0xFFFFFFFF s) = Inr True"
    and e: "fst (destroyEntity 0xFFFFFFFF s) = Inr True"
    by (simp add: eval_defs)
  from detach_or_destroy_then_get [OF s, of 1 "0xFFFFFFFF"]
    detach_or_destroy_then_get [OF s, of 2 "0xFFFFFFFF"] s g d e
  show ?thesis by auto
qed

subsection \<open>Atomicity of attach and detach\<close>

lemma entityTable_cong: "m_entities s' = m_entities s \<Longrightarrow> entityTable s' e T = entityTable s e T"
  by (simp add: entityTable_def)

lemma typeIndex_cong:
  "m_componentTypes s' = m_componentTypes s \<Longrightarrow> typeIndex s' T e = typeIndex s T e"
  by (simp add: typeIndex_def)

text \<open>The results of the two calls in any state, and the state a throwing
  \<^verbatim>\<open>detachComponent\<close> leaves.\<close>

lemma attachComponent_fst:
  "fst (attachComponent e (Some c) s) =
     Inr (m_entities s e \<noteq> None \<and> entityTable s e (typeid c) = None)"
  by (auto simp: attachComponent_def nodes_insert_def map_insert_def Let_def entityTable_def
      split: option.splits)

lemma detachComponent_fst:
  "fst (detachComponent T e s) =
     (if entityTable s e T = None then Inr False
      else if typeIndex s T e \<noteq> None then Inr True
      else Inl (if m_componentTypes s T = None then Missing_component else Missing_entity_node))"
  by (auto simp: detachComponent_def Let_def entityTable_def typeIndex_def split: option.splits)

lemma detachComponent_throw:
  assumes "entityTable s e T \<noteq> None" and "typeIndex s T e = None"
  shows "m_componentTypes (snd (detachComponent T e s)) = m_componentTypes s
     \<and> entityTable (snd (detachComponent T e s)) e' T' =
         (if e' = e \<and> T' = T then None else entityTable s e' T')"
  using assms
  by (auto simp: detachComponent_def Let_def entityTable_def typeIndex_def map_of_nodes_erase
      split: option.splits)

lemma attachComponent_null: "attachComponent e None s = (Inr False, s)"
  by (simp add: attachComponent_def split: option.splits)

lemma attachComponent_refused:
  assumes "m_entities s e = None \<or> entityTable s e (typeid c) \<noteq> None"
  shows "attachComponent e (Some c) s = (Inr False, s)"
proof -
  from assms have "fst (attachComponent e (Some c) s) = Inr False"
    by (auto simp: attachComponent_fst)
  with attachComponent_False [of e "Some c" s] show ?thesis by (simp add: prod_eq_iff)
qed

lemma attachComponent_done:
  assumes "m_entities s e \<noteq> None" and "entityTable s e (typeid c) = None"
    and "typeIndex s (typeid c) e = None"
  shows "fst (attachComponent e (Some c) s) = Inr True
     \<and> m_entities (snd (attachComponent e (Some c) s)) \<noteq> m_entities s
     \<and> m_componentTypes (snd (attachComponent e (Some c) s)) \<noteq> m_componentTypes s
     \<and> (\<forall>e' T'. entityTable (snd (attachComponent e (Some c) s)) e' T' =
           (if e' = e \<and> T' = typeid c then Some (Some c) else entityTable s e' T'))
     \<and> (\<forall>e' T'. typeIndex (snd (attachComponent e (Some c) s)) T' e' =
           (if e' = e \<and> T' = typeid c then Some (Some c) else typeIndex s T' e'))"
proof -
  let ?a = "attachComponent e (Some c) s"
  from assms have t: "fst ?a = Inr True" by (simp add: attachComponent_fst)
  from assms have ti: "typeIndex s (typeid (the (Some c))) e = None" by simp
  note et' = attachComponent_True_entityTable [OF t]
  note ti' = attachComponent_True_typeIndex [OF t ti]
  have "m_entities (snd ?a) \<noteq> m_entities s"
  proof
    assume "m_entities (snd ?a) = m_entities s"
    from entityTable_cong [OF this, of e "typeid c"] assms et' show False by simp
  qed
  moreover have "m_componentTypes (snd ?a) \<noteq> m_componentTypes s"
  proof
    assume "m_componentTypes (snd ?a) = m_componentTypes s"
    from typeIndex_cong [OF this, of "typeid c" e] assms ti' show False by simp
  qed
  ultimately show ?thesis using t et' ti' by simp
qed

lemma detachComponent_refused:
  assumes "entityTable s e T = None"
  shows "detachComponent T e s = (Inr False, s)"
proof -
  from assms have "fst (detachComponent T e s) = Inr False" by (simp add: detachComponent_fst)
  with detachComponent_False [of T e s] show ?thesis by (simp add: prod_eq_iff)
qed

lemma detachComponent_done:
  assumes "entityTable s e T \<noteq> None" and "typeIndex s T e \<noteq> None"
  shows "fst (detachComponent T e s) = Inr True
     \<and> m_entities (snd (detachComponent T e s)) \<noteq> m_entities s
     \<and> m_componentTypes (snd (detachComponent T e s)) \<noteq> m_componentTypes s
     \<and> (\<forall>e' T'. entityTable (snd (detachComponent T e s)) e' T' =
           (if e' = e \<and> T' = T then None else entityTable s e' T'))
     \<and> (\<forall>e' T'. typeIndex (snd (detachComponent T e s)) T' e' =
           (if e' = e \<and> T' = T then None else typeIndex s T' e'))"
proof -
  let ?d = "detachComponent T e s"
  from assms have t: "fst ?d = Inr True" by (simp add: detachComponent_fst)
  note et' = detachComponent_True_entityTable [OF t]
  note ti' = detachComponent_True_typeIndex [OF t]
  have "m_entities (snd ?d) \<noteq> m_entities s"
  proof
    assume "m_entities (snd ?d) = m_entities s"
    from entityTable_cong [OF this, of e T] assms et' show False by simp
  qed
  moreover have "m_componentTypes (snd ?d) \<noteq> m_componentTypes s"
  proof
    assume "m_componentTypes (snd ?d) = m_componentTypes s"
    from typeIndex_cong [OF this, of T e] assms ti' show False by simp
  qed
  ultimately show ?thesis using t et' ti' by simp
qed

lemma detachComponent_fault:
  assumes "entityTable s e T \<noteq> None" and "typeIndex s T e = None"
  shows "fst (detachComponent T e s) =
       Inl (if m_componentTypes s T = None then Missing_component else Missing_entity_node)
     \<and> m_entities (snd (detachComponent T e s)) \<noteq> m_entities s
     \<and> m_componentTypes (snd (detachComponent T e s)) = m_componentTypes s
     \<and> (\<forall>e' T'. entityTable (snd (detachComponent T e s)) e' T' =
           (if e' = e \<and> T' = T then None else entityTable s e' T'))"
proof -
  let ?d = "detachComponent T e s"
  note th = detachComponent_throw [OF assms]
  have "m_entities (snd ?d) \<noteq> m_entities s"
  proof
    assume "m_entities (snd ?d) = m_entities s"
    from entityTable_cong [OF this, of e T] assms(1) th [of e T] show False by simp
  qed
  with assms th show ?thesis by (simp add: detachComponent_fst)
qed

text \<open>In a state that a history reaches from a fresh manager the two tables agree at every
  pair, so each call updates both tables or neither, and neither call throws.\<close>

lemma reachable_attach_detach:
  assumes "run history EntityManager_new = Some (rs, s)"
  shows "(fst (attachComponent e p s) = Inr True
          \<and> m_entities (snd (attachComponent e p s)) \<noteq> m_entities s
          \<and> m_componentTypes (snd (attachComponent e p s)) \<noteq> m_componentTypes s
        \<or> attachComponent e p s = (Inr False, s))
       \<and> (fst (detachComponent T e s) = Inr True
          \<and> m_entities (snd (detachComponent T e s)) \<noteq> m_entities s
          \<and> m_componentTypes (snd (detachComponent T e s)) \<noteq> m_componentTypes s
        \<or> detachComponent T e s = (Inr False, s))"
proof
  from assms have "tables_agree s" by (rule run_tables_agree)
  then have agree: "entityTable s e' T' = typeIndex s T' e'" for e' T'
    by (simp add: tables_agree_def)
  show "fst (attachComponent e p s) = Inr True
          \<and> m_entities (snd (attachComponent e p s)) \<noteq> m_entities s
          \<and> m_componentTypes (snd (attachComponent e p s)) \<noteq> m_componentTypes s
        \<or> attachComponent e p s = (Inr False, s)"
  proof (cases p)
    case None
    then show ?thesis by (simp add: attachComponent_null)
  next
    case (Some c)
    show ?thesis
    proof (cases "m_entities s e = None \<or> entityTable s e (typeid c) \<noteq> None")
      case True
      with Some show ?thesis by (simp add: attachComponent_refused)
    next
      case False
      with agree [of e "typeid c"] have "m_entities s e \<noteq> None"
        "entityTable s e (typeid c) = None" "typeIndex s (typeid c) e = None" by simp_all
      from attachComponent_done [OF this] Some show ?thesis by simp
    qed
  qed
  show "fst (detachComponent T e s) = Inr True
          \<and> m_entities (snd (detachComponent T e s)) \<noteq> m_entities s
          \<and> m_componentTypes (snd (detachComponent T e s)) \<noteq> m_componentTypes s
        \<or> detachComponent T e s = (Inr False, s)"
  proof (cases "entityTable s e T = None")
    case True
    then show ?thesis by (simp add: detachComponent_refused)
  next
    case False
    with agree [of e T] have "entityTable s e T \<noteq> None" "typeIndex s T e \<noteq> None" by simp_all
    from detachComponent_done [OF this] show ?thesis by simp
  qed
qed

text \<open>
  Claim C9 says that in every state each \<^verbatim>\<open>attachComponent\<close> or \<^verbatim>\<open>detachComponent\<close> call
  updates both tables or neither. It fails where the index and the entity table differ on
  the very pair the call is about, as they can once a client has changed a map that
  \<^verbatim>\<open>getEntityNodes\<close> handed out. If the client erased the entry of an entity there,
  \<^verbatim>\<open>detachComponent\<close> throws after it has erased the component from \<^verbatim>\<open>m_entities\<close>, and
  the index is as before: the code erases first and announces the exception (``errors
  beyond this point indicate that state of the EM has become corrupt''). If the client
  inserted an entry, \<^verbatim>\<open>attachComponent\<close> returns \<^verbatim>\<open>true\<close> and changes \<^verbatim>\<open>m_entities\<close> while
  the index is as before: \<^verbatim>\<open>std::map::insert\<close> does not overwrite and its result is not
  looked at, although the same comment stands before it.
\<close>

theorem attach_detach_not_atomic_when_tables_disagree:
  "fst (detachComponent 1 0xFFFFFFFF
     \<lparr>m_entities = [0xFFFFFFFF \<mapsto> [(1, Some (Component 10 1))]], m_entitiesMarkedForRemoval = [],
      m_componentTypes = [1 \<mapsto> Map.empty], m_nextEntityId = 0xFFFFFFFE\<rparr>) =
     Inl Missing_entity_node
   \<and> m_entities (snd (detachComponent 1 0xFFFFFFFF
     \<lparr>m_entities = [0xFFFFFFFF \<mapsto> [(1, Some (Component 10 1))]], m_entitiesMarkedForRemoval = [],
      m_componentTypes = [1 \<mapsto> Map.empty], m_nextEntityId = 0xFFFFFFFE\<rparr>)) =
     [0xFFFFFFFF \<mapsto> []]
   \<and> m_componentTypes (snd (detachComponent 1 0xFFFFFFFF
     \<lparr>m_entities = [0xFFFFFFFF \<mapsto> [(1, Some (Component 10 1))]], m_entitiesMarkedForRemoval = [],
      m_componentTypes = [1 \<mapsto> Map.empty], m_nextEntityId = 0xFFFFFFFE\<rparr>)) =
     [1 \<mapsto> Map.empty]
   \<and> fst (attachComponent 0xFFFFFFFF (Some (Component 11 1))
     \<lparr>m_entities = [0xFFFFFFFF \<mapsto> []], m_entitiesMarkedForRemoval = [],
      m_componentTypes = [1 \<mapsto> [0xFFFFFFFF \<mapsto> Some (Component 10 1)]],
      m_nextEntityId = 0xFFFFFFFE\<rparr>) = Inr True
   \<and> m_entities (snd (attachComponent 0xFFFFFFFF (Some (Component 11 1))
     \<lparr>m_entities = [0xFFFFFFFF \<mapsto> []], m_entitiesMarkedForRemoval = [],
      m_componentTypes = [1 \<mapsto> [0xFFFFFFFF \<mapsto> Some (Component 10 1)]],
      m_nextEntityId = 0xFFFFFFFE\<rparr>)) = [0xFFFFFFFF \<mapsto> [(1, Some (Component 11 1))]]
   \<and> m_componentTypes (snd (attachComponent 0xFFFFFFFF (Some (Component 11 1))
     \<lparr>m_entities = [0xFFFFFFFF \<mapsto> []], m_entitiesMarkedForRemoval = [],
      m_componentTypes = [1 \<mapsto> [0xFFFFFFFF \<mapsto> Some (Component 10 1)]],
      m_nextEntityId = 0xFFFFFFFE\<rparr>)) = [1 \<mapsto> [0xFFFFFFFF \<mapsto> Some (Component 10 1)]]"
  by (simp add: eval_defs)

text \<open>
  Claim C9, amended. In every state and for all arguments:
  \<^item> \<^verbatim>\<open>attachComponent\<close> with a null pointer, an unknown id, or an entity that already
    holds a component of the kind returns \<^verbatim>\<open>false\<close> and leaves the state as it was;
  \<^item> \<^verbatim>\<open>attachComponent\<close> with a live id whose entity holds no component of the kind, when
    the index has no entry for the kind and the id either, returns \<^verbatim>\<open>true\<close> and both
    \<^verbatim>\<open>m_entities\<close> and \<^verbatim>\<open>m_componentTypes\<close> change, each gaining exactly the entry for the
    id and the kind with the given pointer (nothing is said of the case where the index
    has such an entry);
  \<^item> \<^verbatim>\<open>detachComponent\<close> for an id and kind with no entry in the entity table returns
    \<^verbatim>\<open>false\<close> and leaves the state as it was;
  \<^item> \<^verbatim>\<open>detachComponent\<close> for an id and kind with an entry in both tables returns
    \<^verbatim>\<open>true\<close> and both tables change, each losing exactly that entry;
  \<^item> \<^verbatim>\<open>detachComponent\<close> for an id and kind with an entry in the entity table and none
    in the index throws, having erased the entry from \<^verbatim>\<open>m_entities\<close>, with
    \<^verbatim>\<open>m_componentTypes\<close> as it was.
\<close>

theorem attach_detach_atomic:
  "attachComponent entityId None s = (Inr False, s)
   \<and> (m_entities s entityId = None \<or> entityTable s entityId (typeid c) \<noteq> None \<longrightarrow>
        attachComponent entityId (Some c) s = (Inr False, s))
   \<and> (m_entities s entityId \<noteq> None \<and> entityTable s entityId (typeid c) = None
        \<and> typeIndex s (typeid c) entityId = None \<longrightarrow>
        fst (attachComponent entityId (Some c) s) = Inr True
        \<and> m_entities (snd (attachComponent entityId (Some c) s)) \<noteq> m_entities s
        \<and> m_componentTypes (snd (attachComponent entityId (Some c) s)) \<noteq> m_componentTypes s
        \<and> (\<forall>e' T'. entityTable (snd (attachComponent entityId (Some c) s)) e' T' =
              (if e' = entityId \<and> T' = typeid c then Some (Some c) else entityTable s e' T'))
        \<and> (\<forall>e' T'. typeIndex (snd (attachComponent entityId (Some c) s)) T' e' =
              (if e' = entityId \<and> T' = typeid c then Some (Some c) else typeIndex s T' e')))
   \<and> (entityTable s entityId T = None \<longrightarrow> detachComponent T entityId s = (Inr False, s))
   \<and> (entityTable s entityId T \<noteq> None \<and> typeIndex s T entityId \<noteq> None \<longrightarrow>
        fst (detachComponent T entityId s) = Inr True
        \<and> m_entities (snd (detachComponent T entityId s)) \<noteq> m_entities s
        \<and> m_componentTypes (snd (detachComponent T entityId s)) \<noteq> m_componentTypes s
        \<and> (\<forall>e' T'. entityTable (snd (detachComponent T entityId s)) e' T' =
              (if e' = entityId \<and> T' = T then None else entityTable s e' T'))
        \<and> (\<forall>e' T'. typeIndex (snd (detachComponent T entityId s)) T' e' =
              (if e' = entityId \<and> T' = T then None else typeIndex s T' e')))
   \<and> (entityTable s entityId T \<noteq> None \<and> typeIndex s T entityId = None \<longrightarrow>
        fst (detachComponent T entityId s) =
          Inl (if m_componentTypes s T = None then Missing_component else Missing_entity_node)
        \<and> m_entities (snd (detachComponent T entityId s)) \<noteq> m_entities s
        \<and> m_componentTypes (snd (detachComponent T entityId s)) = m_componentTypes s
        \<and> (\<forall>e' T'. entityTable (snd (detachComponent T entityId s)) e' T' =
              (if e' = entityId \<and> T' = T then None else entityTable s e' T')))"
  using attachComponent_null [of entityId s] attachComponent_refused [of s entityId c]
    attachComponent_done [of s entityId c] detachComponent_refused [of s entityId T]
    detachComponent_done [of s entityId T] detachComponent_fault [of s entityId T]
  by blast

theorem attach_detach_atomic_witness:
  "\<exists>s. run [CreateEntity, AttachComponent 0xFFFFFFFF (Some (Component 10 1))] EntityManager_new =
          Some ([Id 0xFFFFFFFF, Bool True], s)
     \<and> attachComponent 0xFFFFFFFF None s = (Inr False, s)
     \<and> attachComponent 0xFFFFFFFF (Some (Component 12 1)) s = (Inr False, s)
     \<and> attachComponent 7 (Some (Component 12 2)) s = (Inr False, s)
     \<and> fst (attachComponent 0xFFFFFFFF (Some (Component 11 2)) s) = Inr True
     \<and> m_entities (snd (attachComponent 0xFFFFFFFF (Some (Component 11 2)) s)) \<noteq> m_entities s
     \<and> m_componentTypes (snd (attachComponent 0xFFFFFFFF (Some (Component 11 2)) s))
         \<noteq> m_componentTypes s
     \<and> detachComponent 2 0xFFFFFFFF s = (Inr False, s)
     \<and> fst (detachComponent 1 0xFFFFFFFF s) = Inr True
     \<and> m_entities (snd (detachComponent 1 0xFFFFFFFF s)) \<noteq> m_entities s
     \<and> m_componentTypes (snd (detachComponent 1 0xFFFFFFFF s)) \<noteq> m_componentTypes s
     \<and> fst (detachComponent 1 0xFFFFFFFF (s\<lparr>m_componentTypes := [1 \<mapsto> Map.empty]\<rparr>)) =
         Inl Missing_entity_node
     \<and> m_entities (snd (detachComponent 1 0xFFFFFFFF (s\<lparr>m_componentTypes := [1 \<mapsto> Map.empty]\<rparr>)))
         \<noteq> m_entities s
     \<and> m_componentTypes (snd (detachComponent 1 0xFFFFFFFF
           (s\<lparr>m_componentTypes := [1 \<mapsto> Map.empty]\<rparr>))) = [1 \<mapsto> Map.empty]"
proof -
  obtain s where s: "run [CreateEntity, AttachComponent 0xFFFFFFFF (Some (Component 10 1))]
          EntityManager_new = Some ([Id 0xFFFFFFFF, Bool True], s)"
    and l: "m_entities s 0xFFFFFFFF \<noteq> None" "m_entities s 7 = None"
    and e: "entityTable s 0xFFFFFFFF 1 \<noteq> None" "entityTable s 0xFFFFFFFF 2 = None"
    and i: "typeIndex s 1 0xFFFFFFFF \<noteq> None" "typeIndex s 2 0xFFFFFFFF = None"
    by (simp add: eval_defs entityTable_def typeIndex_def)
  let ?f = "s\<lparr>m_componentTypes := [1 \<mapsto> Map.empty]\<rparr>"
  from e(1) have f: "entityTable ?f 0xFFFFFFFF 1 \<noteq> None" "typeIndex ?f 1 0xFFFFFFFF = None"
    "m_componentTypes ?f 1 \<noteq> None" "m_entities ?f = m_entities s"
    "m_componentTypes ?f = [1 \<mapsto> Map.empty]"
    by (simp_all add: entityTable_def typeIndex_def)
  from attach_detach_atomic [of "0xFFFFFFFF" s "Component 12 1" 2] e(1,2)
  have "attachComponent 0xFFFFFFFF None s = (Inr False, s)"
    "attachComponent 0xFFFFFFFF (Some (Component 12 1)) s = (Inr False, s)"
    "detachComponent 2 0xFFFFFFFF s = (Inr False, s)"
    by simp_all
  moreover from attach_detach_atomic [of 7 s "Component 12 2" 2] l(2)
  have "attachComponent 7 (Some (Component 12 2)) s = (Inr False, s)" by simp
  moreover from attach_detach_atomic [of "0xFFFFFFFF" s "Component 11 2" 1] l(1) e i
  have "fst (attachComponent 0xFFFFFFFF (Some (Component 11 2)) s) = Inr True"
    "m_entities (snd (attachComponent 0xFFFFFFFF (Some (Component 11 2)) s)) \<noteq> m_entities s"
    "m_componentTypes (snd (attachComponent 0xFFFFFFFF (Some (Component 11 2)) s))
         \<noteq> m_componentTypes s"
    "fst (detachComponent 1 0xFFFFFFFF s) = Inr True"
    "m_entities (snd (detachComponent 1 0xFFFFFFFF s)) \<noteq> m_entities s"
    "m_componentTypes (snd (detachComponent 1 0xFFFFFFFF s)) \<noteq> m_componentTypes s"
    by simp_all
  moreover from attach_detach_atomic [of "0xFFFFFFFF" ?f "Component 11 2" 1] f
  have "fst (detachComponent 1 0xFFFFFFFF ?f) = Inl Missing_entity_node"
    "m_entities (snd (detachComponent 1 0xFFFFFFFF ?f)) \<noteq> m_entities s"
    "m_componentTypes (snd (detachComponent 1 0xFFFFFFFF ?f)) = [1 \<mapsto> Map.empty]"
    by simp_all
  ultimately show ?thesis using s by blast
qed

subsection \<open>The pending list in the long run\<close>

lemma run_append:
  "run (a @ b) s =
     (case run a s of None \<Rightarrow> None
      | Some (ra, s1) \<Rightarrow> (case run b s1 of None \<Rightarrow> None | Some (rb, s2) \<Rightarrow> Some (ra @ rb, s2)))"
  by (induction a arbitrary: s) (auto split: option.splits)

lemma create_destroy_round:
  assumes "c \<noteq> 0"
  shows "run [CreateEntity, DestroyEntity c]
           \<lparr>m_entities = Map.empty, m_entitiesMarkedForRemoval = P, m_componentTypes = C,
            m_nextEntityId = c\<rparr> =
         Some ([Id c, Bool True],
           \<lparr>m_entities = Map.empty, m_entitiesMarkedForRemoval = P, m_componentTypes = C,
            m_nextEntityId = prevEntityId c\<rparr>)"
proof -
  have "findAvailable Map.empty c = Some c" by (subst findAvailable.simps) simp
  then show ?thesis
    by (simp add: createEntity_def map_insert_def maxEntityId_def destroyEntity_def
        bool_outcome_def)
qed

lemma create_destroy_rounds_run:
  "c \<noteq> 0 \<Longrightarrow>
   \<exists>rs. run (create_destroy_rounds c n)
           \<lparr>m_entities = Map.empty, m_entitiesMarkedForRemoval = P, m_componentTypes = C,
            m_nextEntityId = c\<rparr> =
         Some (rs,
           \<lparr>m_entities = Map.empty, m_entitiesMarkedForRemoval = P, m_componentTypes = C,
            m_nextEntityId = (prevEntityId ^^ n) c\<rparr>)"
proof (induction n arbitrary: c)
  case 0
  then show ?case by simp
next
  case (Suc n)
  from Suc.IH [OF prevEntityId_nonzero [OF Suc.prems]]
  obtain rs where rs: "run (create_destroy_rounds (prevEntityId c) n)
           \<lparr>m_entities = Map.empty, m_entitiesMarkedForRemoval = P, m_componentTypes = C,
            m_nextEntityId = prevEntityId c\<rparr> =
         Some (rs,
           \<lparr>m_entities = Map.empty, m_entitiesMarkedForRemoval = P, m_componentTypes = C,
            m_nextEntityId = (prevEntityId ^^ n) (prevEntityId c)\<rparr>)" by blast
  have "create_destroy_rounds c (Suc n) =
          [CreateEntity, DestroyEntity c] @ create_destroy_rounds (prevEntityId c) n" by simp
  with create_destroy_round [OF Suc.prems, of P C] rs show ?case
    by (simp only: run_append funpow_Suc_right o_apply) simp
qed

lemma prevEntityId_funpow:
  "n < unat c \<Longrightarrow> (prevEntityId ^^ n) c = c - of_nat n"
proof (induction n)
  case 0
  then show ?case by simp
next
  case (Suc n)
  then have ih: "(prevEntityId ^^ n) c = c - of_nat n" by simp
  have nb: "n < 2 ^ 32" using Suc.prems unsigned_less [of c, where ?'a = nat] by simp
  then have un: "unat (of_nat n :: EntityId) = n" by (simp add: unat_of_nat)
  with Suc.prems have le: "(of_nat n :: EntityId) \<le> c" by (simp add: word_le_nat_alt)
  then have "unat (c - of_nat n) = unat c - n" using un by (simp add: unat_sub)
  with Suc.prems have "unat (c - of_nat n) \<noteq> 1" by simp
  then have ne: "c - of_nat n \<noteq> 1" by auto
  have "(prevEntityId ^^ Suc n) c = prevEntityId ((prevEntityId ^^ n) c)" by simp
  also from ih have "\<dots> = prevEntityId (c - of_nat n)" by simp
  also from ne have "\<dots> = c - of_nat n - 1" by (simp add: prevEntityId_def)
  also have "\<dots> = c - of_nat (Suc n)" by simp
  finally show ?case .
qed

lemma cursor_wraps: "(prevEntityId ^^ 4294967294) 0xFFFFFFFE = (0xFFFFFFFF :: EntityId)"
proof -
  have "(prevEntityId ^^ 4294967293) 0xFFFFFFFE = (0xFFFFFFFE :: EntityId) - of_nat 4294967293"
    by (rule prevEntityId_funpow) simp
  then have one: "(prevEntityId ^^ 4294967293) 0xFFFFFFFE = (1 :: EntityId)" by simp
  have "(4294967294 :: nat) = Suc 4294967293" by simp
  then have "(prevEntityId ^^ 4294967294) (0xFFFFFFFE :: EntityId) =
        prevEntityId ((prevEntityId ^^ 4294967293) 0xFFFFFFFE)"
    by (simp only: funpow.simps o_apply)
  with one show ?thesis by (simp add: prevEntityId_def maxEntityId_def)
qed

text \<open>
  What the list that is never emptied does in the long run. Create an entity, mark it and
  purge: the entity is gone and its id 0xFFFFFFFF stays in the list. After \<open>2\<^sup>3\<^sup>2 - 2\<close>
  further rounds of creating and destroying, the cursor is back at 0xFFFFFFFF, so the
  next \<^verbatim>\<open>createEntity\<close> gives that id to a new entity; a \<^verbatim>\<open>purge\<close> then destroys the new
  entity, which nobody marked.
\<close>

lemma stale_mark_destroys_reused_id:
  "\<exists>rs s s1.
     run ([CreateEntity, MarkForRemoval 0xFFFFFFFF, Purge]
          @ create_destroy_rounds 0xFFFFFFFE 4294967294) EntityManager_new = Some (rs, s)
     \<and> MarkForRemoval 0xFFFFFFFF \<notin> set (create_destroy_rounds 0xFFFFFFFE 4294967294)
     \<and> m_entities s = Map.empty
     \<and> createEntity s = Some (0xFFFFFFFF, s1)
     \<and> m_entities s1 = [0xFFFFFFFF \<mapsto> []]
     \<and> m_entities (snd (purge s1)) = Map.empty"
proof -
  let ?P = "[0xFFFFFFFF :: EntityId]"
  let ?C = "Map.empty :: ComponentTypes"
  let ?start = "\<lparr>m_entities = Map.empty, m_entitiesMarkedForRemoval = ?P, m_componentTypes = ?C,
            m_nextEntityId = 0xFFFFFFFE\<rparr>"
  let ?wrapped = "\<lparr>m_entities = Map.empty, m_entitiesMarkedForRemoval = ?P, m_componentTypes = ?C,
            m_nextEntityId = 0xFFFFFFFF\<rparr>"
  let ?reused = "\<lparr>m_entities = [0xFFFFFFFF \<mapsto> []], m_entitiesMarkedForRemoval = ?P,
            m_componentTypes = ?C, m_nextEntityId = 0xFFFFFFFE\<rparr>"
  have a: "run [CreateEntity, MarkForRemoval 0xFFFFFFFF, Purge] EntityManager_new =
             Some ([Id 0xFFFFFFFF, Void, Void], ?start)"
    by (simp add: eval_defs)
  have "(0xFFFFFFFE :: EntityId) \<noteq> 0" by simp
  from create_destroy_rounds_run [OF this, of 4294967294 ?P ?C] cursor_wraps
  obtain rs where b: "run (create_destroy_rounds 0xFFFFFFFE 4294967294) ?start = Some (rs, ?wrapped)"
    by auto
  from a b have r: "run ([CreateEntity, MarkForRemoval 0xFFFFFFFF, Purge]
          @ create_destroy_rounds 0xFFFFFFFE 4294967294) EntityManager_new =
          Some ([Id 0xFFFFFFFF, Void, Void] @ rs, ?wrapped)"
    by (simp only: run_append option.case prod.case)
  have nm: "MarkForRemoval e \<notin> set (create_destroy_rounds c n)" for e c n
    by (induction n arbitrary: c) simp_all
  have c: "createEntity ?wrapped = Some (0xFFFFFFFF, ?reused)" by (simp add: eval_defs)
  have p: "m_entities (snd (purge ?reused)) = Map.empty" by (simp add: eval_defs)
  from r nm c p show ?thesis by (intro exI [of _ "[Id 0xFFFFFFFF, Void, Void] @ rs"]
      exI [of _ ?wrapped] exI [of _ ?reused]) simp
qed

end
